theory Spec2Isabelle
  imports Complex_Main
begin

section \<open>DIFF\_EV: differential evolution with hill climbing\<close>

text \<open>
  A shallow embedding of \<^verbatim>\<open>DEV_MA/DIFF_EV.CPP\<close>.

  A C++ \<^verbatim>\<open>double\<close> is modelled as a \<^typ>\<open>real\<close>: comparisons and assignments are
  those of the source, arithmetic is exact, but for the sum with 0.5 of which
  \<^verbatim>\<open>ensure_legal\<close> takes the integer part, whose rounding is written out.  The
  concrete inputs used below are dyadic rationals of small magnitude, on which the
  source's arithmetic is exact as well.
  An \<^verbatim>\<open>int\<close> is modelled as an \<^typ>\<open>int\<close>.  The product in the reduction of the
  trade count, which leaves the range of a 32-bit \<^verbatim>\<open>int\<close> from 238609295 on, has its
  wrap-around written out, and so has the cast of a double that does not fit an
  \<^verbatim>\<open>int\<close>; the counters, which only go up by one, are taken as unbounded, and the
  properties below assume bounds that keep the integer walks of the hill-climbing step
  within the range of \<^verbatim>\<open>int\<close>.  Sizes and subscripts that the source keeps non-negative
  are natural numbers, and a subscript computed from a number drawn is the natural
  number of the \<^verbatim>\<open>int\<close> the source computes, which is the same for the draws in
  \<open>[0, 1)\<close> that the properties below assume.  Reads and writes outside a buffer, which
  C++ leaves undefined, are outside the model: the properties assume at least one
  variable and one case, and buffers of the sizes the source allocates.
\<close>

subsection \<open>Integer arithmetic\<close>

text \<open>
  A 32-bit \<^verbatim>\<open>int\<close> result wraps around, and \<^verbatim>\<open>/\<close> on \<^verbatim>\<open>int\<close> truncates toward
  zero.
\<close>

definition c_wrap :: "int \<Rightarrow> int" where
  "c_wrap x = (x + 2^31) mod 2^32 - 2^31"

definition c_div :: "int \<Rightarrow> int \<Rightarrow> int" where
  "c_div a b = (if (a < 0) \<noteq> (b < 0) then - (\<bar>a\<bar> div \<bar>b\<bar>) else \<bar>a\<bar> div \<bar>b\<bar>)"

subsection \<open>Conversions\<close>

text \<open>
  The cast \<^verbatim>\<open>(int) x\<close> of a double truncates toward zero when the truncated value is
  in the range of a 32-bit \<^verbatim>\<open>int\<close>.  C++ leaves the cast undefined otherwise; the
  value taken here is the one the conversion instruction of x86 returns, the least
  \<^verbatim>\<open>int\<close>.
\<close>

definition c_int :: "real \<Rightarrow> int" where
  "c_int x = (if - (2^31) - 1 < x \<and> x < 2^31 then (if 0 \<le> x then \<lfloor>x\<rfloor> else \<lceil>x\<rceil>)
              else - (2^31))"

text \<open>
  The sum \<^verbatim>\<open>0.5 + x\<close> of doubles, for \<open>x\<close> not negative, of which the source takes the
  integer part.  The sum is rounded to a double.  For a double \<open>x\<close> with \<open>x + 0.5\<close>
  below \<open>2^31\<close> the rounded sum has the integer part of the exact sum, except at the
  double next below 0.5, which is \<open>1/2 - 2^-54\<close>: there the sum is rounded to 1.
\<close>

definition half_plus :: "real \<Rightarrow> real" where
  "half_plus x = (if x = 1/2 - 1/2^54 then 1 else 1/2 + x)"

subsection \<open>ensure\_legal\<close>

text \<open>
  The body of the loop of \<^verbatim>\<open>ensure_legal\<close> for subscript \<open>i\<close>, on the pair of the
  running penalty and the vector it updates in place.  For a negative variable the source
  computes \<^verbatim>\<open>0.5 - params[i]\<close>, the sum of 0.5 and the variable negated, and negates
  the \<^verbatim>\<open>int\<close> it has cast.
\<close>

definition legal_body ::
  "nat \<Rightarrow> nat \<Rightarrow> real list \<Rightarrow> real list \<Rightarrow> real \<times> real list \<Rightarrow> real \<times> real list" where
  "legal_body i nints low_bounds high_bounds st =
     (let (penalty, params) = st;
          params = (if i < nints then
                      (if params ! i \<ge> 0 then params[i := of_int (c_int (half_plus (params ! i)))]
                       else if params ! i < 0
                       then params[i := of_int (c_wrap (- c_int (half_plus (- (params ! i)))))]
                       else params)
                    else params);
          (penalty, params) =
             (if params ! i > high_bounds ! i
              then (penalty + 10^10 * (params ! i - high_bounds ! i), params[i := high_bounds ! i])
              else (penalty, params));
          (penalty, params) =
             (if params ! i < low_bounds ! i
              then (penalty + 10^10 * (low_bounds ! i - params ! i), params[i := low_bounds ! i])
              else (penalty, params))
      in (penalty, params))"

function legal_loop ::
  "nat \<Rightarrow> nat \<Rightarrow> nat \<Rightarrow> real list \<Rightarrow> real list \<Rightarrow> real \<times> real list \<Rightarrow> real \<times> real list" where
  "legal_loop i nvars nints low_bounds high_bounds st =
     (if i < nvars
      then legal_loop (i + 1) nvars nints low_bounds high_bounds
             (legal_body i nints low_bounds high_bounds st)
      else st)"
  by pat_completeness auto
termination
  by (relation "measure (\<lambda>(i, nvars, _). nvars - i)") auto

declare legal_loop.simps [simp del]

text \<open>\<^verbatim>\<open>ensure_legal\<close> returns the penalty; the vector is returned with it.\<close>

definition ensure_legal ::
  "nat \<Rightarrow> nat \<Rightarrow> real list \<Rightarrow> real list \<Rightarrow> real list \<Rightarrow> real \<times> real list" where
  "ensure_legal nvars nints low_bounds high_bounds params =
     legal_loop 0 nvars nints low_bounds high_bounds (0, params)"

subsection \<open>What the specification says of ensure\_legal\<close>

text \<open>Nearest integer, ties away from zero.\<close>

definition round_away :: "real \<Rightarrow> real" where
  "round_away x = sgn x * of_int \<lfloor>\<bar>x\<bar> + 1/2\<rfloor>"

text \<open>The amount by which a value lies above \<open>hi\<close> or below \<open>lo\<close>.\<close>

definition overshoot :: "real \<Rightarrow> real \<Rightarrow> real \<Rightarrow> real" where
  "overshoot lo hi x = max 0 (x - hi) + max 0 (lo - x)"

definition clamp :: "real \<Rightarrow> real \<Rightarrow> real \<Rightarrow> real" where
  "clamp lo hi x = max lo (min hi x)"

text \<open>The value of dimension \<open>i\<close> after the rounding step: only the first \<open>nints\<close> are rounded.\<close>

definition rounded :: "nat \<Rightarrow> real list \<Rightarrow> nat \<Rightarrow> real" where
  "rounded nints params i = (if i < nints then round_away (params ! i) else params ! i)"

text \<open>
  The penalty in the specification's words: the overshoot of each dimension measured on
  the value it had before rounding and clamping.
\<close>

definition spec_penalty :: "nat \<Rightarrow> real list \<Rightarrow> real list \<Rightarrow> real list \<Rightarrow> real" where
  "spec_penalty nvars low_bounds high_bounds params =
     (\<Sum>i<nvars. 10^10 * overshoot (low_bounds ! i) (high_bounds ! i) (params ! i))"

text \<open>
  A vector within its bounds, and one whose integer dimensions hold integers, that is,
  values that the cast to \<^verbatim>\<open>int\<close> and back leaves as they are.
\<close>

definition in_bounds :: "nat \<Rightarrow> real list \<Rightarrow> real list \<Rightarrow> real list \<Rightarrow> bool" where
  "in_bounds nvars low_bounds high_bounds params =
     (\<forall>i<nvars. low_bounds ! i \<le> params ! i \<and> params ! i \<le> high_bounds ! i)"

definition ordered_bounds :: "nat \<Rightarrow> real list \<Rightarrow> real list \<Rightarrow> bool" where
  "ordered_bounds nvars low_bounds high_bounds = (\<forall>i<nvars. low_bounds ! i \<le> high_bounds ! i)"

definition integral :: "nat \<Rightarrow> nat \<Rightarrow> real list \<Rightarrow> bool" where
  "integral nvars nints params =
     (\<forall>i<nvars. i < nints \<longrightarrow> params ! i = of_int (c_int (params ! i)))"

text \<open>
  The value that lines 530--533 leave in an integer variable that held \<open>p\<close>, and the
  value of dimension \<open>i\<close> after those lines.
\<close>

definition c_round :: "real \<Rightarrow> real" where
  "c_round p = (if p \<ge> 0 then of_int (c_int (half_plus p))
                else of_int (c_wrap (- c_int (half_plus (- p)))))"

definition c_rounded :: "nat \<Rightarrow> real list \<Rightarrow> nat \<Rightarrow> real" where
  "c_rounded nints params i = (if i < nints then c_round (params ! i) else params ! i)"

text \<open>
  Integer variables on which the rounding of lines 530--533 stays within \<^verbatim>\<open>int\<close> and
  the sum with 0.5 keeps its integer part: of magnitude below \<open>2^31 - 1/2\<close>, and not
  the double next below 0.5.
\<close>

definition castable :: "nat \<Rightarrow> nat \<Rightarrow> real list \<Rightarrow> bool" where
  "castable nvars nints params =
     (\<forall>i<nvars. i < nints \<longrightarrow> \<bar>params ! i\<bar> + 1/2 < 2^31 \<and> \<bar>params ! i\<bar> \<noteq> 1/2 - 1/2^54)"

subsection \<open>Data\<close>

text \<open>
  A case of a population is \<^verbatim>\<open>dim = nvars + 1\<close> doubles: the variables, then the
  criterion.  \<^verbatim>\<open>memcpy\<close> of \<^verbatim>\<open>dim\<close> doubles copies the whole record.
\<close>

record cand =
  vars :: "real list"
  crit :: real

text \<open>
  \<^verbatim>\<open>glob_max\<close> and \<^verbatim>\<open>brentmax\<close> are not part of the source.  They reach the case
  being tweaked only by calling the function they are handed, \<^verbatim>\<open>c_func\<close>; so the pair
  is taken as a parameter: a strategy that either asks for the function's value at a
  point and goes on from the answer, or stops with the location \<^verbatim>\<open>x2\<close> it found.
\<close>

datatype search = Found real | Probe real "real \<Rightarrow> search"

text \<open>
  The arguments of \<^verbatim>\<open>diff_ev\<close>, with the routines it calls that the source does not
  hold: \<open>maximise lower upper\<close> stands for \<^verbatim>\<open>glob_max\<close> followed by \<^verbatim>\<open>brentmax\<close> on
  that interval, \<open>paramcor\<close> for the report on the final population.  Printing and the
  \<^verbatim>\<open>StocBias\<close> switch do not act on the optimisation and are left out.
\<close>

record env =
  criter :: "real list \<Rightarrow> int \<Rightarrow> real"
  nvars :: nat
  nints :: nat
  popsize :: nat
  overinit :: nat
  max_evals :: int
  max_bad_gen :: int
  mutate_dev :: real
  pcross :: real
  pclimb :: real
  low_bounds :: "real list"
  high_bounds :: "real list"
  maximise :: "real \<Rightarrow> real \<Rightarrow> search"
  paramcor :: "nat \<Rightarrow> nat \<Rightarrow> cand list \<Rightarrow> int"

text \<open>
  The variables of \<^verbatim>\<open>diff_ev\<close> that live across loop iterations.  \<open>draws\<close> holds the
  values that the coming calls of \<^verbatim>\<open>unifrand\<close> return; \<open>old_is_pop1\<close> says which buffer
  \<^verbatim>\<open>old_gen\<close> points to.
\<close>

record state =
  pop1 :: "cand list"
  pop2 :: "cand list"
  best :: cand
  grand_best :: real
  worstf :: real
  avgf :: real
  n_evals :: int
  failures :: int
  local_mintrades :: int
  ibest :: nat
  n_tweaked :: int
  improved :: bool
  bad_generations :: int
  old_is_pop1 :: bool
  draws :: "real list"

text \<open>
  Where the program is: in the initial loop at subscript \<open>ind\<close>, in generation \<open>g\<close> of
  the main loop at subscript \<open>ind\<close>, or returned with its code and the contents of
  \<^verbatim>\<open>params\<close>.
\<close>

datatype pc = Initialising nat | Evolving nat nat | Returned int "real list"

definition old_gen :: "state \<Rightarrow> cand list" where
  "old_gen s = (if old_is_pop1 s then pop1 s else pop2 s)"

definition new_gen :: "state \<Rightarrow> cand list" where
  "new_gen s = (if old_is_pop1 s then pop2 s else pop1 s)"

text \<open>An assignment through \<^verbatim>\<open>dest_ptr = new_gen + ind * dim\<close>.\<close>

definition set_dest :: "nat \<Rightarrow> cand \<Rightarrow> state \<Rightarrow> state" where
  "set_dest ind c s =
     (if old_is_pop1 s then s\<lparr>pop2 := (pop2 s)[ind := c]\<rparr> else s\<lparr>pop1 := (pop1 s)[ind := c]\<rparr>)"

subsection \<open>The initial population\<close>

text \<open>Lines 108--118: the variables of a new case, one draw each.\<close>

function fill_loop :: "env \<Rightarrow> nat \<Rightarrow> real list \<Rightarrow> real list \<Rightarrow> (real list \<times> real list) option" where
  "fill_loop e i popptr ds =
     (if i < nvars e then
        (case ds of
           [] \<Rightarrow> None
         | u # ds' \<Rightarrow>
             if i < nints e then
               (let popptr = popptr[i := low_bounds e ! i
                               + of_int (c_int (u * (high_bounds e ! i - low_bounds e ! i + 1)))];
                    popptr = (if popptr ! i > high_bounds e ! i
                              then popptr[i := high_bounds e ! i] else popptr)
                in fill_loop e (i + 1) popptr ds')
             else
               fill_loop e (i + 1)
                 (popptr[i := low_bounds e ! i + u * (high_bounds e ! i - low_bounds e ! i)]) ds')
      else Some (popptr, ds))"
  by pat_completeness auto
termination
  by (relation "measure (\<lambda>(e, i, _). nvars e - i)") auto

declare fill_loop.simps [simp del]

text \<open>Lines 181--188: the search of \<^verbatim>\<open>pop1\<close> for the worst, on \<open>(minptr, worstf, avgf)\<close>.\<close>

definition scan_body :: "cand list \<Rightarrow> nat \<Rightarrow> nat \<times> real \<times> real \<Rightarrow> nat \<times> real \<times> real" where
  "scan_body pop i st =
     (let (minptr, worstf, avgf) = st;
          dtemp = crit (pop ! i);
          avgf = avgf + dtemp
      in if i = 0 \<or> dtemp < worstf then (i, dtemp, avgf) else (minptr, worstf, avgf))"

text \<open>Lines 178--193: a trial of the over-initialisation replaces the worst if it is better.\<close>

definition overinit_replace :: "env \<Rightarrow> cand \<Rightarrow> real \<Rightarrow> state \<Rightarrow> state" where
  "overinit_replace e popptr val s =
     (let (minptr, worstf', avgf') = fold (scan_body (pop1 s)) [0..<popsize e] (0, worstf s, 0);
          s = s\<lparr>worstf := worstf', avgf := avgf'\<rparr>
      in if val > worstf s
         then s\<lparr>pop1 := (pop1 s)[minptr := popptr], avgf := avgf s + (val - worstf s)\<rparr>
         else s)"

text \<open>Lines 133--138: the count of failures in a row, and the reduction of the trade count.\<close>

definition count_failure :: "state \<Rightarrow> state" where
  "count_failure s =
     (let s = s\<lparr>failures := failures s + 1\<rparr>
      in if failures s \<ge> 500 then
           (let s = s\<lparr>failures := 0\<rparr>;
                s = s\<lparr>local_mintrades := c_div (c_wrap (local_mintrades s * 9)) 10\<rparr>
            in if local_mintrades s < 1 then s\<lparr>local_mintrades := 1\<rparr> else s)
         else s)"

text \<open>The label \<^verbatim>\<open>FINISHED\<close>: \<^verbatim>\<open>params\<close> receives \<^verbatim>\<open>best\<close>.\<close>

definition finished :: "int \<Rightarrow> state \<Rightarrow> pc" where
  "finished ret_code s = Returned ret_code (vars (best s) @ [crit (best s)])"

text \<open>
  Lines 101--195: one pass of the initial loop at subscript \<open>ind\<close>, which first draws
  the variables of the trial in its place.  A worthless trial leaves the subscript as it
  is (\<^verbatim>\<open>--ind\<close>, \<^verbatim>\<open>continue\<close>, \<^verbatim>\<open>ind++\<close>).
\<close>

definition new_trial :: "env \<Rightarrow> nat \<Rightarrow> state \<Rightarrow> (real list \<times> real list) option" where
  "new_trial e ind s =
     (let popptr = (if ind < popsize e then pop1 s ! ind else pop2 s ! 0)
      in fill_loop e 0 (vars popptr) (draws s))"

definition init_trial :: "env \<Rightarrow> nat \<Rightarrow> state \<Rightarrow> (pc \<times> state) option" where
  "init_trial e ind s =
     (case new_trial e ind s of
           None \<Rightarrow> None
         | Some (v, ds) \<Rightarrow>
            (let val = criter e v (local_mintrades s);
                 c = \<lparr>vars = v, crit = val\<rparr>;
                 s = s\<lparr>draws := ds\<rparr>;
                 s = (if ind < popsize e then s\<lparr>pop1 := (pop1 s)[ind := c]\<rparr>
                      else s\<lparr>pop2 := (pop2 s)[0 := c]\<rparr>);
                 s = s\<lparr>n_evals := n_evals s + 1\<rparr>;
                 s = (if ind = 0
                      then s\<lparr>grand_best := val, worstf := val, avgf := val, best := pop1 s ! 0\<rparr>
                      else s)
             in if val \<le> 0 then
                  (if n_evals s > max_evals e then Some (finished 0 s, s)
                   else Some (Initialising ind, count_failure s))
                else
                  (let s = s\<lparr>failures := 0\<rparr>;
                       s = (if val > grand_best s then s\<lparr>best := c, grand_best := val\<rparr> else s);
                       s = (if val < worstf s then s\<lparr>worstf := val\<rparr> else s);
                       s = s\<lparr>avgf := avgf s + val\<rparr>;
                       s = (if ind \<ge> popsize e then overinit_replace e c val s else s)
                   in Some (Initialising (ind + 1), s))))"

text \<open>Lines 206--214: the subscript of the best of \<^verbatim>\<open>pop1\<close>, on \<open>(ibest, value)\<close>.\<close>

definition best_body :: "cand list \<Rightarrow> nat \<Rightarrow> nat \<times> real \<Rightarrow> nat \<times> real" where
  "best_body pop ind st =
     (let (ib, val) = st
      in if crit (pop ! ind) > val then (ind, crit (pop ! ind)) else (ib, val))"

text \<open>Lines 233--235: the start of a generation.\<close>

definition start_generation :: "state \<Rightarrow> state" where
  "start_generation s = s\<lparr>worstf := 10^60, avgf := 0, improved := False\<rparr>"

text \<open>Lines 206--229: between the initial loop and the first generation.\<close>

definition start_evolution :: "env \<Rightarrow> state \<Rightarrow> state" where
  "start_evolution e s =
     (let (ib, val) = fold (best_body (pop1 s)) [1..<popsize e] (0, crit (pop1 s ! 0))
      in start_generation (s\<lparr>ibest := ib, n_tweaked := 0, old_is_pop1 := True, bad_generations := 0\<rparr>))"

subsection \<open>Mutation and crossover\<close>

text \<open>
  Lines 246--253 and 269--270: draw \<^verbatim>\<open>(int) (unifrand() * n)\<close> again while it is not
  below \<open>n\<close> or equals one of \<open>excl\<close>.
\<close>

fun pick :: "nat \<Rightarrow> int list \<Rightarrow> real list \<Rightarrow> (int \<times> real list) option" where
  "pick n excl [] = None"
| "pick n excl (u # ds) =
     (let i = c_int (u * of_nat n)
      in if i \<ge> int n \<or> i \<in> set excl then pick n excl ds else Some (i, ds))"

text \<open>Line 276: the value that differential mutation gives variable \<open>j\<close>.\<close>

definition mutant :: "env \<Rightarrow> real list \<Rightarrow> real list \<Rightarrow> real list \<Rightarrow> nat \<Rightarrow> real" where
  "mutant e parent2 diff1 diff2 j = parent2 ! j + mutate_dev e * (diff1 ! j - diff2 ! j)"

text \<open>
  Lines 274--282.  The first argument counts the passes left, so that \<open>Suc i\<close> is the
  pass on which the source's loop variable is \<open>i\<close>; no number is drawn on the last pass
  when no mutated variable has been used.
\<close>

fun crossover ::
  "env \<Rightarrow> real list \<Rightarrow> real list \<Rightarrow> real list \<Rightarrow> real list \<Rightarrow>
   nat \<Rightarrow> nat \<Rightarrow> bool \<Rightarrow> real list \<Rightarrow> real list \<Rightarrow> (real list \<times> real list) option" where
  "crossover e parent1 parent2 diff1 diff2 0 j used dest ds = Some (dest, ds)"
| "crossover e parent1 parent2 diff1 diff2 (Suc i) j used dest ds =
     (if i = 0 \<and> \<not> used then
        crossover e parent1 parent2 diff1 diff2 i ((j + 1) mod nvars e) True
          (dest[j := mutant e parent2 diff1 diff2 j]) ds
      else
        (case ds of
           [] \<Rightarrow> None
         | u # ds' \<Rightarrow>
             if u < pcross e then
               crossover e parent1 parent2 diff1 diff2 i ((j + 1) mod nvars e) True
                 (dest[j := mutant e parent2 diff1 diff2 j]) ds'
             else
               crossover e parent1 parent2 diff1 diff2 i ((j + 1) mod nvars e) used
                 (dest[j := parent1 ! j]) ds'))"

text \<open>
  Lines 239--290: the child of subscript \<open>ind\<close> is built in its place in the new
  generation and made legal; the criterion stored in that place is not yet its own.
\<close>

definition make_child :: "env \<Rightarrow> nat \<Rightarrow> state \<Rightarrow> state option" where
  "make_child e ind s =
     (let parent1 = old_gen s ! ind;
          dest = new_gen s ! ind
      in case pick (popsize e) [int ind] (draws s) of None \<Rightarrow> None | Some (i, ds) \<Rightarrow>
         case pick (popsize e) [int ind, i] ds of None \<Rightarrow> None | Some (j, ds) \<Rightarrow>
         case pick (popsize e) [int ind, i, j] ds of None \<Rightarrow> None | Some (k, ds) \<Rightarrow>
         (let parent2 = old_gen s ! nat i;
              diff1 = old_gen s ! nat j;
              diff2 = old_gen s ! nat k
          in case pick (nvars e) [] ds of None \<Rightarrow> None | Some (j, ds) \<Rightarrow>
             case crossover e (vars parent1) (vars parent2) (vars diff1) (vars diff2)
                    (nvars e) (nat j) False (vars dest) ds of
               None \<Rightarrow> None
             | Some (v, ds) \<Rightarrow>
                 (let (penalty, v) = ensure_legal (nvars e) (nints e) (low_bounds e) (high_bounds e) v
                  in Some (set_dest ind (dest\<lparr>vars := v\<rparr>) (s\<lparr>draws := ds\<rparr>)))))"

text \<open>The update of the best so far, as lines 304--310 and 440--446 write it.\<close>

definition update_best :: "nat \<Rightarrow> real \<Rightarrow> state \<Rightarrow> state" where
  "update_best ind val s =
     (if val > grand_best s
      then s\<lparr>grand_best := val, best := new_gen s ! ind, ibest := ind, n_tweaked := 0,
             improved := True\<rparr>
      else s)"

text \<open>Lines 300--316: the child is kept if it beats \<^verbatim>\<open>parent1\<close>; returns \<^verbatim>\<open>value\<close>.\<close>

definition selection :: "env \<Rightarrow> nat \<Rightarrow> state \<Rightarrow> real \<times> state" where
  "selection e ind s =
     (let parent1 = old_gen s ! ind;
          dest = new_gen s ! ind;
          val = criter e (vars dest) (local_mintrades s)
      in if val > crit parent1
         then (val, update_best ind val (set_dest ind (dest\<lparr>crit := val\<rparr>) s))
         else (crit parent1, set_dest ind parent1 s))"

subsection \<open>The hill-climbing step\<close>

text \<open>
  Lines 357--371: the walk upward on an integer variable \<open>k\<close>, on
  \<open>(ibase, value, success, dest)\<close>; \<open>ivar\<close> is the value last tried.
\<close>

function climb_up ::
  "env \<Rightarrow> int \<Rightarrow> nat \<Rightarrow> int \<Rightarrow> int \<Rightarrow> int \<times> real \<times> bool \<times> real list \<Rightarrow>
   int \<times> real \<times> bool \<times> real list" where
  "climb_up e mintrades k ihigh ivar (ibase, val, success, dest) =
     (if ivar + 1 \<le> ihigh then
        (let dest = dest[k := of_int (ivar + 1)];
             test_val = criter e dest mintrades
         in if test_val > val
            then climb_up e mintrades k ihigh (ivar + 1) (ivar + 1, test_val, True, dest)
            else (ibase, val, success, dest[k := of_int ibase]))
      else (ibase, val, success, dest))"
  by pat_completeness auto
termination
  by (relation "measure (\<lambda>(e, m, k, ihigh, ivar, _). nat (ihigh - ivar))") auto

declare climb_up.simps [simp del]

text \<open>Lines 375--389: the walk downward.\<close>

function climb_down ::
  "env \<Rightarrow> int \<Rightarrow> nat \<Rightarrow> int \<Rightarrow> int \<Rightarrow> int \<times> real \<times> bool \<times> real list \<Rightarrow>
   int \<times> real \<times> bool \<times> real list" where
  "climb_down e mintrades k ilow ivar (ibase, val, success, dest) =
     (if ivar - 1 \<ge> ilow then
        (let dest = dest[k := of_int (ivar - 1)];
             test_val = criter e dest mintrades
         in if test_val > val
            then climb_down e mintrades k ilow (ivar - 1) (ivar - 1, test_val, True, dest)
            else (ibase, val, success, dest[k := of_int ibase]))
      else (ibase, val, success, dest))"
  by pat_completeness auto
termination
  by (relation "measure (\<lambda>(e, m, k, ilow, ivar, _). nat (ivar - ilow))") auto

declare climb_down.simps [simp del]

text \<open>
  Lines 350--397: an integer variable.  Only the variables of the case are assigned;
  returns \<^verbatim>\<open>value\<close>.
\<close>

definition climb_int :: "env \<Rightarrow> nat \<Rightarrow> nat \<Rightarrow> real \<Rightarrow> state \<Rightarrow> real \<times> state" where
  "climb_int e ind k val s =
     (let dest = new_gen s ! ind;
          ibase = c_int (vars dest ! k);
          ilow = c_int (low_bounds e ! k);
          ihigh = c_int (high_bounds e ! k);
          (ibase, val, success, v) =
             climb_up e (local_mintrades s) k ihigh ibase (ibase, val, False, vars dest);
          (ibase, val, success, v) =
             (if \<not> success
              then climb_down e (local_mintrades s) k ilow ibase (ibase, val, success, v)
              else (ibase, val, success, v))
      in (val, set_dest ind (dest\<lparr>vars := v\<rparr>) s))"

text \<open>
  Lines 556--563: \<^verbatim>\<open>c_func\<close> writes its argument into variable \<open>k\<close> of the case it
  works on, makes the case legal and returns the criterion less the penalty.
\<close>

definition c_func :: "env \<Rightarrow> int \<Rightarrow> nat \<Rightarrow> real \<Rightarrow> real list \<Rightarrow> real \<times> real list" where
  "c_func e mintrades k param x =
     (let x = x[k := param];
          (penalty, x) = ensure_legal (nvars e) (nints e) (low_bounds e) (high_bounds e) x
      in (criter e x mintrades - penalty, x))"

text \<open>The univariate maximiser at work: each question it asks is a call of the function.\<close>

primrec run_search ::
  "(real \<Rightarrow> real list \<Rightarrow> real \<times> real list) \<Rightarrow> search \<Rightarrow> real list \<Rightarrow> real \<times> real list" where
  "run_search f (Found x2) x = (x2, x)"
| "run_search f (Probe p g) x = (let (y, x') = f p x in run_search f (g y) x')"

text \<open>Lines 413--422: the interval searched around \<open>local_base\<close>.\<close>

definition climb_interval :: "real \<Rightarrow> real \<Rightarrow> real \<Rightarrow> real \<times> real" where
  "climb_interval lo hi local_base =
     (let lower = local_base - 1/10 * (hi - lo);
          upper = local_base + 1/10 * (hi - lo);
          (lower, upper) = (if lower < lo then (lo, lo + 1/5 * (hi - lo)) else (lower, upper));
          (lower, upper) = (if upper > hi then (hi - 1/5 * (hi - lo), hi) else (lower, upper))
      in (lower, upper))"

text \<open>Lines 401--447: a real variable; returns \<^verbatim>\<open>value\<close>.\<close>

definition climb_real :: "env \<Rightarrow> nat \<Rightarrow> nat \<Rightarrow> real \<Rightarrow> state \<Rightarrow> real \<times> state" where
  "climb_real e ind k val s =
     (let dest = new_gen s ! ind;
          local_base = vars dest ! k;
          old_value = val;
          (lower, upper) = climb_interval (low_bounds e ! k) (high_bounds e ! k) local_base;
          (x2, v) = run_search (c_func e (local_mintrades s) k) (maximise e lower upper) (vars dest);
          v = v[k := x2];
          (penalty, v) = ensure_legal (nvars e) (nints e) (low_bounds e) (high_bounds e) v;
          val = criter e v (local_mintrades s);
          (val, dest) = (if val > old_value then (val, dest\<lparr>vars := v, crit := val\<rparr>)
                         else (old_value, dest\<lparr>vars := v[k := local_base]\<rparr>));
          s = set_dest ind dest s
      in (val, update_best ind val s))"

text \<open>Lines 338--447: the variable to tweak is chosen, then tweaked.\<close>

definition climb :: "env \<Rightarrow> nat \<Rightarrow> nat \<Rightarrow> real \<Rightarrow> state \<Rightarrow> (real \<times> state) option" where
  "climb e generation ind val s =
     (if ind = ibest s then
        (let s = s\<lparr>n_tweaked := n_tweaked s + 1\<rparr>;
             k = generation mod nvars e
         in Some (if k < nints e then climb_int e ind k val s else climb_real e ind k val s))
      else
        (case draws s of
           [] \<Rightarrow> None
         | u # ds \<Rightarrow>
            (let s = s\<lparr>draws := ds\<rparr>;
                 k = c_int (u * of_nat (nvars e));
                 k = (if k \<ge> int (nvars e) then int (nvars e) - 1 else k)
             in Some (if k < int (nints e) then climb_int e ind (nat k) val s
                      else climb_real e ind (nat k) val s))))"

text \<open>
  Lines 336--337: whether to take the step.  No number is drawn when \<^verbatim>\<open>pclimb\<close> is not
  positive, nor when this case is the best and has variables left to tweak.
\<close>

definition hill_climb :: "env \<Rightarrow> nat \<Rightarrow> nat \<Rightarrow> real \<Rightarrow> state \<Rightarrow> (real \<times> state) option" where
  "hill_climb e generation ind val s =
     (if pclimb e > 0 then
        (if ind = ibest s \<and> n_tweaked s < int (nvars e) then climb e generation ind val s
         else
           (case draws s of
              [] \<Rightarrow> None
            | u # ds \<Rightarrow>
                if u < pclimb e then climb e generation ind val (s\<lparr>draws := ds\<rparr>)
                else Some (val, s\<lparr>draws := ds\<rparr>)))
      else Some (val, s))"

subsection \<open>The main loop\<close>

text \<open>Lines 237--455: one pass of the loop over the children, at subscript \<open>ind\<close>.\<close>

definition child_step :: "env \<Rightarrow> nat \<Rightarrow> nat \<Rightarrow> state \<Rightarrow> state option" where
  "child_step e generation ind s =
     (case make_child e ind s of
        None \<Rightarrow> None
      | Some s \<Rightarrow>
         (let (val, s) = selection e ind s
          in case hill_climb e generation ind val s of
               None \<Rightarrow> None
             | Some (val, s) \<Rightarrow>
                 (let s = (if val < worstf s then s\<lparr>worstf := val\<rparr> else s)
                  in Some (s\<lparr>avgf := avgf s + val\<rparr>))))"

text \<open>
  Lines 468--506: the end of a generation, which either leaves the loop, reports and
  returns, or swaps the generations and starts the next one.
\<close>

definition end_generation :: "env \<Rightarrow> nat \<Rightarrow> state \<Rightarrow> pc \<times> state" where
  "end_generation e generation s =
     (let s = (if \<not> improved s then s\<lparr>bad_generations := bad_generations s + 1\<rparr>
               else s\<lparr>bad_generations := 0\<rparr>)
      in if \<not> improved s \<and> bad_generations s > max_bad_gen e then
           (let ret_code = (if paramcor e (popsize e) (nvars e) (new_gen s) \<noteq> 0 then - 1 else 0)
            in (finished ret_code s, s))
         else
           (Evolving (generation + 1) 0,
            start_generation (s\<lparr>old_is_pop1 := \<not> old_is_pop1 s\<rparr>)))"

text \<open>One pass of whichever loop the program is in.  A program that has returned stays.\<close>

fun step :: "env \<Rightarrow> pc \<times> state \<Rightarrow> (pc \<times> state) option" where
  "step e (Initialising ind, s) =
     (if ind < popsize e + overinit e then init_trial e ind s
      else Some (Evolving 1 0, start_evolution e s))"
| "step e (Evolving generation ind, s) =
     (if ind < popsize e
      then (case child_step e generation ind s of
              None \<Rightarrow> None
            | Some s \<Rightarrow> Some (Evolving generation (ind + 1), s))
      else Some (end_generation e generation s))"
| "step e (Returned ret_code params, s) = Some (Returned ret_code params, s)"

text \<open>\<open>n\<close> passes; \<open>None\<close> when the draws supplied do not suffice.\<close>

fun iter :: "nat \<Rightarrow> env \<Rightarrow> pc \<times> state \<Rightarrow> (pc \<times> state) option" where
  "iter 0 e c = Some c"
| "iter (Suc n) e c = (case step e c of None \<Rightarrow> None | Some c' \<Rightarrow> iter n e c')"

text \<open>
  Lines 63--98: the entry.  The argument state holds what the buffers and variables
  contain before they are assigned.
\<close>

definition enter :: "int \<Rightarrow> state \<Rightarrow> pc \<times> state" where
  "enter mintrd s = (Initialising 0, s\<lparr>local_mintrades := mintrd, failures := 0, n_evals := 0\<rparr>)"

text \<open>
  \<^verbatim>\<open>diff_ev\<close>: the return code and \<^verbatim>\<open>params\<close>, which is left as it was when memory
  cannot be had; \<open>None\<close> when the program has not returned within \<open>n\<close> passes.
\<close>

definition diff_ev ::
  "nat \<Rightarrow> env \<Rightarrow> bool \<Rightarrow> int \<Rightarrow> real list \<Rightarrow> state \<Rightarrow> (int \<times> real list) option" where
  "diff_ev n e allocated mintrd params s =
     (if \<not> allocated then Some (1, params)
      else case iter n e (enter mintrd s) of
             Some (Returned ret_code params', s') \<Rightarrow> Some (ret_code, params')
           | _ \<Rightarrow> None)"

subsection \<open>What the specification says of the reduced trade count\<close>

text \<open>The threshold after a reduction, in the specification's words.\<close>

definition spec_reduced :: "int \<Rightarrow> int" where
  "spec_reduced t = max 1 (round (of_int t * (9/10) :: real))"

subsection \<open>Concrete inputs\<close>

text \<open>
  One integer variable between 0 and 6, a population of four, and a criterion that is
  the variable plus one when at most three trades are asked for and 0 otherwise.
\<close>

definition demo_env :: env where
  "demo_env = \<lparr>criter = (\<lambda>v m. if m > 3 then 0 else v ! 0 + 1), nvars = 1, nints = 1,
     popsize = 4, overinit = 0,
     max_evals = 1000, max_bad_gen = 0, mutate_dev = 1, pcross = 0, pclimb = 1,
     low_bounds = [0], high_bounds = [6], maximise = (\<lambda>lower upper. Found lower),
     paramcor = (\<lambda>n m p. 0)\<rparr>"

text \<open>Buffers of \<open>n\<close> cases of \<open>m\<close> variables holding zeros, and the numbers to be drawn.\<close>

definition blank :: "nat \<Rightarrow> nat \<Rightarrow> real list \<Rightarrow> state" where
  "blank n m ds = \<lparr>pop1 = replicate n \<lparr>vars = replicate m 0, crit = 0\<rparr>,
     pop2 = replicate n \<lparr>vars = replicate m 0, crit = 0\<rparr>,
     best = \<lparr>vars = replicate m 0, crit = 0\<rparr>, grand_best = 0, worstf = 0, avgf = 0,
     n_evals = 0, failures = 0, local_mintrades = 0, ibest = 0, n_tweaked = 0,
     improved = False, bad_generations = 0, old_is_pop1 = True, draws = ds\<rparr>"

text \<open>A run that asks for four trades, after 499 worthless trials in a row.\<close>

definition worthless_499 :: state where
  "worthless_499 = (snd (enter 4 (blank 4 1 [1/2])))\<lparr>failures := 499\<rparr>"

text \<open>The same, with no evaluation allowed beyond the first.\<close>

definition capped_env :: env where
  "capped_env = demo_env\<lparr>max_evals := 0\<rparr>"

text \<open>The same, with a criterion that is never positive.\<close>

definition losing_env :: env where
  "losing_env = demo_env\<lparr>criter := (\<lambda>v m. - (v ! 0) - 1)\<rparr>"

text \<open>Five real variables, and a crossover probability of 0.\<close>

definition five_env :: env where
  "five_env = \<lparr>criter = (\<lambda>v m. 1), nvars = 5, nints = 0, popsize = 4, overinit = 0,
     max_evals = 1000, max_bad_gen = 0, mutate_dev = 1/2, pcross = 0, pclimb = 0,
     low_bounds = [0, 0, 0, 0, 0], high_bounds = [100, 100, 100, 100, 100],
     maximise = (\<lambda>lower upper. Found lower), paramcor = (\<lambda>n m p. 0)\<rparr>"

text \<open>
  A case of one variable; the state of \<open>demo_env\<close> at the start of a generation, given
  the two buffers, the best so far with its subscript, and the numbers to be drawn; and
  the population that the draws \<open>1/2, 3/4, 5/16, 5/8\<close> give \<open>demo_env\<close>.
\<close>

definition one :: "real \<Rightarrow> real \<Rightarrow> cand" where
  "one x c = \<lparr>vars = [x], crit = c\<rparr>"

definition grown :: "cand list \<Rightarrow> cand list \<Rightarrow> cand \<Rightarrow> nat \<Rightarrow> real list \<Rightarrow> state" where
  "grown p1 p2 b ib ds = \<lparr>pop1 = p1, pop2 = p2, best = b, grand_best = crit b, worstf = 10^60,
     avgf = 0, n_evals = 4, failures = 0, local_mintrades = 1, ibest = ib, n_tweaked = 0,
     improved = False, bad_generations = 0, old_is_pop1 = True, draws = ds\<rparr>"

definition parents :: "cand list" where
  "parents = [one 3 4, one 5 6, one 2 3, one 4 5]"



subsection \<open>Well-formed inputs\<close>








section \<open>Properties\<close>

subsection \<open>ensure\_legal\<close>


lemma wrap_neg_floor:
  assumes "\<bar>p::real\<bar> + 1/2 < 2^31"
  shows "c_wrap (- \<lfloor>\<bar>p\<bar> + 1/2\<rfloor>) = - \<lfloor>\<bar>p\<bar> + 1/2\<rfloor>"
proof -
  define m where "m = \<lfloor>\<bar>p\<bar> + 1/2\<rfloor>"
  have "0 \<le> m" unfolding m_def by simp
  moreover have "m < 2^31" unfolding m_def using assms by (simp add: floor_less_iff)
  ultimately have "(- m + 2^31) mod 2^32 = - m + 2^31"
    by (intro mod_pos_pos_trivial) simp_all
  then show ?thesis unfolding m_def c_wrap_def by simp
qed


lemma c_int_fits: "- (2^31) - 1 < x \<Longrightarrow> x < 2^31 \<Longrightarrow> c_int x = (if 0 \<le> x then \<lfloor>x\<rfloor> else \<lceil>x\<rceil>)"
  by (simp add: c_int_def)

lemma c_round_round:
  assumes "\<bar>p\<bar> + 1/2 < 2^31" "\<bar>p\<bar> \<noteq> 1/2 - 1/2^54"
  shows "c_round p = round_away p"
proof (cases "0 \<le> p")
  case True
  with assms have h: "half_plus p = \<bar>p\<bar> + 1/2" by (simp add: half_plus_def)
  have c: "c_int (\<bar>p\<bar> + 1/2) = \<lfloor>\<bar>p\<bar> + 1/2\<rfloor>"
    using assms(1) by (subst c_int_fits) auto
  have "c_round p = of_int \<lfloor>\<bar>p\<bar> + 1/2\<rfloor>"
    using True h c by (simp add: c_round_def)
  moreover have "round_away p = of_int \<lfloor>\<bar>p\<bar> + 1/2\<rfloor>"
    using True by (cases "p = 0") (simp_all add: round_away_def)
  ultimately show ?thesis by simp
next
  case False
  with assms have h: "half_plus (- p) = \<bar>p\<bar> + 1/2" by (simp add: half_plus_def)
  have c: "c_int (\<bar>p\<bar> + 1/2) = \<lfloor>\<bar>p\<bar> + 1/2\<rfloor>"
    using assms(1) by (subst c_int_fits) auto
  have "c_round p = - of_int \<lfloor>\<bar>p\<bar> + 1/2\<rfloor>"
    using False h c wrap_neg_floor [OF assms(1)] by (simp add: c_round_def)
  moreover have "round_away p = - of_int \<lfloor>\<bar>p\<bar> + 1/2\<rfloor>"
    using False by (simp add: round_away_def)
  ultimately show ?thesis by simp
qed


lemma legal_body_spec:
  assumes "i < length params" "low ! i \<le> high ! i"
  shows "legal_body i ni low high (pen, params) =
           (pen + 10^10 * overshoot (low ! i) (high ! i) (c_rounded ni params i),
            params[i := clamp (low ! i) (high ! i) (c_rounded ni params i)])"
proof (cases "i < ni")
  case False
  with assms show ?thesis
    by (auto simp: legal_body_def c_rounded_def overshoot_def clamp_def Let_def max_def min_def)
next
  case True
  define r where "r = c_round (params ! i)"
  have r: "c_rounded ni params i = r"
    using True by (simp add: c_rounded_def r_def)
  have upd: "(if params ! i \<ge> 0 then params[i := of_int (c_int (half_plus (params ! i)))]
              else if params ! i < 0
              then params[i := of_int (c_wrap (- c_int (half_plus (- (params ! i)))))]
              else params) = params[i := r]"
    by (auto simp: r_def c_round_def)
  have "legal_body i ni low high (pen, params) =
          (let p1 = params[i := r];
               (pen2, p2) = (if p1 ! i > high ! i
                             then (pen + 10^10 * (p1 ! i - high ! i), p1[i := high ! i])
                             else (pen, p1));
               (pen3, p3) = (if p2 ! i < low ! i
                             then (pen2 + 10^10 * (low ! i - p2 ! i), p2[i := low ! i])
                             else (pen2, p2))
           in (pen3, p3))"
    using True unfolding legal_body_def upd [symmetric] by (simp add: Let_def)
  also have "\<dots> = (pen + 10^10 * overshoot (low ! i) (high ! i) r,
                    params[i := clamp (low ! i) (high ! i) r])"
    using assms by (auto simp: Let_def overshoot_def clamp_def max_def min_def)
  finally show ?thesis unfolding r .
qed

lemma legal_loop_spec:
  assumes "nv \<le> length params" "\<forall>j<nv. low ! j \<le> high ! j"
  shows "legal_loop i nv ni low high (pen, params) =
           (pen + (\<Sum>j = i..<nv. 10^10 * overshoot (low ! j) (high ! j) (c_rounded ni params j)),
            map (\<lambda>j. if i \<le> j \<and> j < nv
                      then clamp (low ! j) (high ! j) (c_rounded ni params j)
                      else params ! j) [0..<length params])"
  using assms
proof (induction "nv - i" arbitrary: i pen params)
  case 0
  then have "\<not> i < nv" by simp
  then show ?case
    by (subst legal_loop.simps) (auto intro: nth_equalityI)
next
  case (Suc n)
  then have lt: "i < nv" by simp
  let ?v = "clamp (low ! i) (high ! i) (c_rounded ni params i)"
  let ?p = "params[i := ?v]"
  have body: "legal_body i ni low high (pen, params) =
                (pen + 10^10 * overshoot (low ! i) (high ! i) (c_rounded ni params i), ?p)"
    using lt Suc.prems by (intro legal_body_spec) auto
  have same: "c_rounded ni ?p j = c_rounded ni params j" if "i < j" for j
    using that by (simp add: c_rounded_def)
  have ih: "legal_loop (i + 1) nv ni low high
              (pen + 10^10 * overshoot (low ! i) (high ! i) (c_rounded ni params i), ?p) =
            (pen + 10^10 * overshoot (low ! i) (high ! i) (c_rounded ni params i)
               + (\<Sum>j = i + 1..<nv. 10^10 * overshoot (low ! j) (high ! j) (c_rounded ni ?p j)),
             map (\<lambda>j. if i + 1 \<le> j \<and> j < nv
                      then clamp (low ! j) (high ! j) (c_rounded ni ?p j)
                      else ?p ! j) [0..<length ?p])"
    using Suc.hyps(2) Suc.prems by (intro Suc.hyps(1)) auto
  have sum: "(\<Sum>j = i + 1..<nv. 10^10 * overshoot (low ! j) (high ! j) (c_rounded ni ?p j)) =
             (\<Sum>j = i + 1..<nv. 10^10 * overshoot (low ! j) (high ! j) (c_rounded ni params j))"
    by (intro sum.cong) (auto simp: same)
  have vec: "map (\<lambda>j. if i + 1 \<le> j \<and> j < nv
                      then clamp (low ! j) (high ! j) (c_rounded ni ?p j)
                      else ?p ! j) [0..<length ?p] =
             map (\<lambda>j. if i \<le> j \<and> j < nv
                      then clamp (low ! j) (high ! j) (c_rounded ni params j)
                      else params ! j) [0..<length params]"
    using lt Suc.prems(1) by (intro nth_equalityI) (auto simp: same nth_list_update)
  have split: "(\<Sum>j = i..<nv. 10^10 * overshoot (low ! j) (high ! j) (c_rounded ni params j)) =
      10^10 * overshoot (low ! i) (high ! i) (c_rounded ni params i)
      + (\<Sum>j = i + 1..<nv. 10^10 * overshoot (low ! j) (high ! j) (c_rounded ni params j))"
    using lt by (simp add: sum.atLeast_Suc_lessThan)
  have "legal_loop i nv ni low high (pen, params) =
        legal_loop (i + 1) nv ni low high (legal_body i ni low high (pen, params))"
    using lt by (subst legal_loop.simps) simp
  then show ?case
    unfolding body ih sum vec split by (simp only: add.assoc)
qed

text \<open>What \<^verbatim>\<open>ensure_legal\<close> computes on any vector, whatever the casts do.\<close>

lemma ensure_legal_code:
  assumes "nv \<le> length params" "\<forall>j<nv. low ! j \<le> high ! j"
  shows "ensure_legal nv ni low high params =
           ((\<Sum>j<nv. 10^10 * overshoot (low ! j) (high ! j) (c_rounded ni params j)),
            map (\<lambda>j. if j < nv
                      then clamp (low ! j) (high ! j) (c_rounded ni params j)
                      else params ! j) [0..<length params])"
  using legal_loop_spec [OF assms, of 0 ni 0]
  by (simp add: ensure_legal_def atLeast0LessThan)

lemma castable_rounded:
  "castable nv ni params \<Longrightarrow> j < nv \<Longrightarrow> c_rounded ni params j = rounded ni params j"
  by (auto simp: castable_def c_rounded_def rounded_def intro!: c_round_round)

lemma ensure_legal_char:
  assumes "nv \<le> length params" "\<forall>j<nv. low ! j \<le> high ! j" "castable nv ni params"
  shows "ensure_legal nv ni low high params =
           ((\<Sum>j<nv. 10^10 * overshoot (low ! j) (high ! j) (rounded ni params j)),
            map (\<lambda>j. if j < nv
                      then clamp (low ! j) (high ! j) (rounded ni params j)
                      else params ! j) [0..<length params])"
proof -
  have "(\<Sum>j<nv. 10^10 * overshoot (low ! j) (high ! j) (c_rounded ni params j))
          = (\<Sum>j<nv. 10^10 * overshoot (low ! j) (high ! j) (rounded ni params j))"
    by (intro sum.cong) (simp_all add: castable_rounded [OF assms(3)])
  moreover have "map (\<lambda>j. if j < nv
                      then clamp (low ! j) (high ! j) (c_rounded ni params j)
                      else params ! j) [0..<length params]
          = map (\<lambda>j. if j < nv
                      then clamp (low ! j) (high ! j) (rounded ni params j)
                      else params ! j) [0..<length params]"
    by (intro map_cong) (simp_all add: castable_rounded [OF assms(3)])
  ultimately show ?thesis
    unfolding ensure_legal_code [OF assms(1,2)] by simp
qed

lemma c_int_of_int: "- (2^31) \<le> n \<Longrightarrow> n < 2^31 \<Longrightarrow> c_int (of_int n) = n"
proof -
  assume a: "- (2^31) \<le> n" "n < 2^31"
  then have "- (2^31) - 1 < real_of_int n" "real_of_int n < 2^31"
    by simp_all
  then show ?thesis by (simp add: c_int_def)
qed

lemma fits_iff: "x = of_int (c_int x) \<longleftrightarrow> x \<in> \<int> \<and> - (2^31) \<le> x \<and> x < 2^31"
proof
  assume a: "x = of_int (c_int x)"
  then have i: "x \<in> \<int>" by (metis Ints_of_int)
  show "x \<in> \<int> \<and> - (2^31) \<le> x \<and> x < 2^31"
  proof (cases "- (2^31) - 1 < x \<and> x < 2^31")
    case True
    from i obtain n where n: "x = of_int n" by (auto elim: Ints_cases)
    with True have "- (2^31) \<le> n" by simp
    then have "- (2^31) \<le> real_of_int n" by simp
    with i n True show ?thesis by simp
  next
    case False
    then have "c_int x = - (2^31)" by (auto simp: c_int_def)
    with a have "x = - (2^31)" by simp
    with False show ?thesis by simp
  qed
next
  assume a: "x \<in> \<int> \<and> - (2^31) \<le> x \<and> x < 2^31"
  then obtain n where n: "x = of_int n" by (auto elim: Ints_cases)
  with a have "- (2^31) \<le> n" "n < 2^31" by simp_all
  then show "x = of_int (c_int x)" by (simp add: n c_int_of_int)
qed





lemma round_away_int: "x = of_int (c_int x) \<Longrightarrow> round_away x = x"
proof -
  assume "x = of_int (c_int x)"
  then have "x \<in> \<int>" by (simp add: fits_iff)
  then obtain n where x: "x = of_int n" by (auto elim: Ints_cases)
  have "\<lfloor>\<bar>real_of_int n\<bar> + 1/2\<rfloor> = \<bar>n\<bar>"
    by linarith
  then show ?thesis
    unfolding x round_away_def by (simp add: sgn_if)
qed

lemma ensure_legal_id:
  assumes "nv \<le> length params" "in_bounds nv low high params"
    "integral nv ni params" "castable nv ni params"
  shows "ensure_legal nv ni low high params = (0, params)"
proof -
  have lh: "\<forall>j<nv. low ! j \<le> high ! j"
    using assms(2) by (fastforce simp: in_bounds_def)
  have r: "rounded ni params j = params ! j" if "j < nv" for j
    using assms(3) that by (auto simp: rounded_def integral_def intro: round_away_int)
  have o: "overshoot (low ! j) (high ! j) (params ! j) = 0" if "j < nv" for j
    using assms(2) that by (auto simp: in_bounds_def overshoot_def)
  have c: "clamp (low ! j) (high ! j) (params ! j) = params ! j" if "j < nv" for j
    using assms(2) that by (auto simp: in_bounds_def clamp_def)
  have "map (\<lambda>j. if j < nv
                      then clamp (low ! j) (high ! j) (rounded ni params j)
                      else params ! j) [0..<length params] = params"
    by (intro nth_equalityI) (auto simp: r c)
  then show ?thesis
    unfolding ensure_legal_char [OF assms(1) lh assms(4)] by (simp add: r o)
qed

subsection \<open>C2: what ensure\_legal computes\<close>

text \<open>
  C2, as stated, measures the overshoot of a dimension on the value it had before
  rounding.  The source rounds an integer dimension first and compares the rounded value
  with the bounds: at the vector \<open>[10.25]\<close>, one integer dimension with bounds
  \<open>[0, 10]\<close>, the value is rounded to 10, nothing exceeds the bound and the penalty
  is 0, where the claim's penalty is \<open>1e10 * 0.25\<close>.
\<close>

theorem ensure_legal_penalty_counterexample:
  "fst (ensure_legal 1 1 [0] [10] [41/4]) = 0 \<and> spec_penalty 1 [0] [10] [41/4] = 2500000000"
  by code_simp

text \<open>
  C2, amended: take a vector of at least \<open>nvars\<close> elements, with each lower bound at
  most its upper bound, whose first \<open>nints\<close> dimensions are of magnitude below
  \<open>2^31 - 1/2\<close> and are not the double next below 0.5 or its negative.  On it
  \<^verbatim>\<open>ensure_legal\<close> always returns; each of the first \<open>nints\<close> dimensions is rounded to
  the nearest integer with ties away from zero, every dimension is then clamped into its
  bounds, and the penalty is the sum over the dimensions of \<open>1e10\<close> times the amount by
  which the value after rounding (for an integer dimension) and before clamping exceeded
  the upper bound or fell below the lower one.
\<close>

theorem ensure_legal_measures_after_rounding:
  assumes "nv \<le> length params" "ordered_bounds nv low high" "castable nv ni params"
  shows "ensure_legal nv ni low high params =
           ((\<Sum>j<nv. 10^10 * overshoot (low ! j) (high ! j) (rounded ni params j)),
            map (\<lambda>j. if j < nv
                      then clamp (low ! j) (high ! j) (rounded ni params j)
                      else params ! j) [0..<length params])"
  using assms by (intro ensure_legal_char) (auto simp: ordered_bounds_def)

theorem ensure_legal_measures_after_rounding_witness:
  "(2::nat) \<le> length [21/2, -1/2 :: real] \<and> ordered_bounds 2 [0, 0] [10, 1]
   \<and> castable 2 1 [21/2, -1/2]
   \<and> ensure_legal 2 1 [0, 0] [10, 1] [21/2, -1/2] = (15000000000, [10, 0])"
proof -
  have a: "(2::nat) \<le> length [21/2, -1/2 :: real]" by simp
  have b: "ordered_bounds 2 [0, 0] [10, 1]"
    by (simp add: ordered_bounds_def less_Suc_eq numeral_2_eq_2)
  have c: "castable 2 1 [21/2, -1/2]"
    by (simp add: castable_def less_Suc_eq numeral_2_eq_2)
  show ?thesis
    using a b c ensure_legal_measures_after_rounding [OF a b c]
    by (simp add: less_Suc_eq numeral_2_eq_2 overshoot_def clamp_def
        rounded_def round_away_def lessThan_Suc upt_rec)
qed

subsection \<open>C10: ensure\_legal on a vector within its bounds\<close>

text \<open>
  C10, as stated, fails on an integer dimension that holds a fraction: \<open>[2.5]\<close> lies
  within \<open>[0, 10]\<close>, and \<^verbatim>\<open>ensure_legal\<close> rounds it to 3.
\<close>

theorem ensure_legal_changes_legal_counterexample:
  "in_bounds 1 [0] [10] [5/2] \<and> ensure_legal 1 1 [0] [10] [5/2] = (0, [3])"
proof -
  have "in_bounds 1 [0] [10] [5/2]" by (simp add: in_bounds_def)
  moreover have "ensure_legal 1 1 [0] [10] [5/2] = (0, [3])" by code_simp
  ultimately show ?thesis by simp
qed

text \<open>
  C10, amended: on a vector whose dimensions all lie within their bounds and whose first
  \<open>nints\<close> dimensions hold integers of magnitude below \<open>2^31 - 1/2\<close>,
  \<^verbatim>\<open>ensure_legal\<close> returns the penalty 0 and leaves every element unchanged.
\<close>

theorem ensure_legal_noop:
  assumes "nv \<le> length params" "in_bounds nv low high params"
    "integral nv ni params" "castable nv ni params"
  shows "ensure_legal nv ni low high params = (0, params)"
  using assms by (rule ensure_legal_id)

theorem ensure_legal_noop_witness:
  "(2::nat) \<le> length [3, 5/2 :: real] \<and> in_bounds 2 [0, 0] [10, 10] [3, 5/2]
   \<and> integral 2 1 [3, 5/2] \<and> castable 2 1 [3, 5/2]
   \<and> ensure_legal 2 1 [0, 0] [10, 10] [3, 5/2] = (0, [3, 5/2])"
proof -
  have a: "(2::nat) \<le> length [3, 5/2 :: real]" by simp
  have b: "in_bounds 2 [0, 0] [10, 10] [3, 5/2]"
    by (simp add: in_bounds_def less_Suc_eq numeral_2_eq_2)
  have c: "integral 2 1 [3, 5/2]"
    by (simp add: integral_def c_int_def)
  have d: "castable 2 1 [3, 5/2]"
    by (simp add: castable_def)
  show ?thesis using a b c d ensure_legal_noop [OF a b c d] by simp
qed

subsection \<open>The initial loop\<close>

lemma c_wrap_id: "- (2^31) \<le> x \<Longrightarrow> x < 2^31 \<Longrightarrow> c_wrap x = x"
  by (simp add: c_wrap_def)

lemma c_div_floor: "max 1 (c_div x 10) = max 1 (x div 10)"
  by (auto simp: c_div_def max_def) 

lemma count_failure_reduces:
  assumes "failures s + 1 \<ge> 500" "- (2^31) \<le> local_mintrades s * 9" "local_mintrades s * 9 < 2^31"
  shows "local_mintrades (count_failure s) = max 1 (local_mintrades s * 9 div 10)"
    and "failures (count_failure s) = 0"
  using assms c_div_floor [of "local_mintrades s * 9"]
  by (auto simp: count_failure_def Let_def c_wrap_id max_def)

lemma count_failure_keeps:
  assumes "failures s + 1 < 500"
  shows "local_mintrades (count_failure s) = local_mintrades s"
    and "failures (count_failure s) = failures s + 1"
  using assms by (auto simp: count_failure_def Let_def)

lemma init_trial_cases:
  assumes "new_trial e ind s = Some (v, ds)"
  defines "val \<equiv> criter e v (local_mintrades s)"
  defines "s1 \<equiv> (if ind < popsize e then s\<lparr>draws := ds, pop1 := (pop1 s)[ind := \<lparr>vars = v, crit = val\<rparr>]\<rparr>
                  else s\<lparr>draws := ds, pop2 := (pop2 s)[0 := \<lparr>vars = v, crit = val\<rparr>]\<rparr>)"
  defines "s2 \<equiv> (if ind = 0 then s1\<lparr>n_evals := n_evals s + 1, grand_best := val, worstf := val, avgf := val, best := pop1 s1 ! 0\<rparr>
                  else s1\<lparr>n_evals := n_evals s + 1\<rparr>)"
  shows "val \<le> 0 \<Longrightarrow> n_evals s + 1 > max_evals e \<Longrightarrow> init_trial e ind s = Some (finished 0 s2, s2)"
    and "val \<le> 0 \<Longrightarrow> \<not> n_evals s + 1 > max_evals e \<Longrightarrow> init_trial e ind s = Some (Initialising ind, count_failure s2)"
    and "val > 0 \<Longrightarrow> \<exists>s'. init_trial e ind s = Some (Initialising (ind + 1), s')"
  using assms(1) unfolding val_def s1_def s2_def
  by (auto simp: init_trial_def Let_def)


subsection \<open>C7: the safety escape\<close>

text \<open>
  C7, as stated, aborts the run whenever the number of evaluations exceeds
  \<^verbatim>\<open>max_evals\<close> during initialisation.  The source tests the count only after a worthless
  trial: with \<^verbatim>\<open>max_evals = 0\<close> and a criterion that is positive, the count exceeds the
  cap from the first evaluation on, and the run goes through the initial loop into the
  first generation.
\<close>

theorem no_abort_beyond_cap_counterexample:
  "map_option (\<lambda>(p, s). (p, n_evals s, max_evals capped_env))
     (iter 6 capped_env (enter 1 (blank 4 1 [1/2, 3/4, 5/16, 5/8, 1/4, 1/2, 3/4, 0, 0, 0])))
   = Some (Evolving 1 1, 4, 0)"
  by code_simp


text \<open>
  C7, amended: in the initial loop, a trial whose criterion is not positive, evaluated
  when the count of evaluations (this one included) exceeds \<^verbatim>\<open>max_evals\<close>, ends the run
  at once: \<^verbatim>\<open>params\<close> receives the variables and the criterion of \<^verbatim>\<open>best\<close>, which at
  subscript 0 is the trial itself, and the code returned is 0.  A worthless trial within
  the cap is tried again, and a trial with a positive criterion never ends the run,
  whatever the count.
\<close>

theorem abort_only_on_worthless_trial:
  assumes "new_trial e ind s = Some (v, ds)"
  shows "(criter e v (local_mintrades s) \<le> 0 \<and> n_evals s + 1 > max_evals e \<longrightarrow>
            (\<exists>s'. init_trial e ind s = Some (Returned 0 (vars (best s') @ [crit (best s')]), s')
                  \<and> best s' = (if ind = 0 then pop1 s' ! 0 else best s)))
       \<and> (criter e v (local_mintrades s) \<le> 0 \<and> n_evals s + 1 \<le> max_evals e \<longrightarrow>
            (\<exists>s'. init_trial e ind s = Some (Initialising ind, s')))
       \<and> (criter e v (local_mintrades s) > 0 \<longrightarrow>
            (\<exists>s'. init_trial e ind s = Some (Initialising (ind + 1), s')))"
  using init_trial_cases [OF assms]
  by (auto simp: finished_def)

theorem abort_only_on_worthless_trial_witness:
  "new_trial capped_env 0 (snd (enter 4 (blank 4 1 [1/2]))) = Some ([3], [])
   \<and> criter capped_env [3] 4 \<le> 0
   \<and> map_option fst (init_trial capped_env 0 (snd (enter 4 (blank 4 1 [1/2]))))
       = Some (Returned 0 [3, 0])"
proof -
  have a: "new_trial capped_env 0 (snd (enter 4 (blank 4 1 [1/2]))) = Some ([3], [])"
    by code_simp
  have b: "map_option fst (init_trial capped_env 0 (snd (enter 4 (blank 4 1 [1/2]))))
       = Some (Returned 0 [3, 0])"
    by code_simp
  have c: "criter capped_env [3] 4 \<le> 0" by code_simp
  show ?thesis
    using a b c abort_only_on_worthless_trial [OF a] by simp
qed

subsection \<open>C5: the best so far\<close>

lemma grand_best_set_dest [simp]: "grand_best (set_dest ind c s) = grand_best s"
  by (simp add: set_dest_def)

lemma grand_best_count_failure [simp]: "grand_best (count_failure s) = grand_best s"
  by (simp add: count_failure_def Let_def)

lemma grand_best_overinit_replace [simp]: "grand_best (overinit_replace e c v s) = grand_best s"
  by (simp add: overinit_replace_def Let_def split: prod.splits)

lemma grand_best_update_best: "grand_best s \<le> grand_best (update_best ind v s)"
  by (simp add: update_best_def)

lemma grand_best_start_generation [simp]: "grand_best (start_generation s) = grand_best s"
  by (simp add: start_generation_def)

lemma grand_best_start_evolution [simp]: "grand_best (start_evolution e s) = grand_best s"
  by (simp add: start_evolution_def Let_def split: prod.splits)

lemma grand_best_init_trial:
  assumes "init_trial e ind s = Some (p, s')" "ind \<noteq> 0"
  shows "grand_best s \<le> grand_best s'"
  using assms
  by (auto simp: init_trial_def Let_def split: option.splits prod.splits if_splits)

lemma grand_best_make_child:
  assumes "make_child e ind s = Some s'"
  shows "grand_best s' = grand_best s"
  using assms
  by (auto simp: make_child_def Let_def split: option.splits prod.splits)

lemma grand_best_selection:
  assumes "selection e ind s = (v, s')"
  shows "grand_best s \<le> grand_best s'"
  using assms grand_best_update_best [of "set_dest ind ((new_gen s ! ind)\<lparr>crit := v\<rparr>) s" ind v]
  by (auto simp: selection_def Let_def split: if_splits)

lemma grand_best_climb_int:
  assumes "climb_int e ind k v s = (v', s')"
  shows "grand_best s' = grand_best s"
  using assms by (auto simp: climb_int_def Let_def split: prod.splits)

lemma grand_best_climb_real:
  assumes "climb_real e ind k v s = (v', s')"
  shows "grand_best s \<le> grand_best s'"
proof -
  obtain d where "s' = update_best ind v' (set_dest ind d s)"
    using assms by (auto simp: climb_real_def Let_def split: prod.splits if_splits)
  then show ?thesis
    using grand_best_update_best [of "set_dest ind d s" ind v'] by simp
qed

lemma climb_cases:
  assumes "climb e g ind v s = Some (v', s')"
  shows "\<exists>k s0. grand_best s0 = grand_best s
           \<and> (climb_int e ind k v s0 = (v', s') \<or> climb_real e ind k v s0 = (v', s'))"
proof (cases "ind = ibest s")
  case True
  with assms have
    "climb_int e ind (g mod nvars e) v (s\<lparr>n_tweaked := n_tweaked s + 1\<rparr>) = (v', s')
     \<or> climb_real e ind (g mod nvars e) v (s\<lparr>n_tweaked := n_tweaked s + 1\<rparr>) = (v', s')"
    by (auto simp: climb_def Let_def split: if_splits)
  then show ?thesis
    by (intro exI [of _ "g mod nvars e"] exI [of _ "s\<lparr>n_tweaked := n_tweaked s + 1\<rparr>"]) simp
next
  case False
  with assms obtain u ds where d: "draws s = u # ds"
    by (auto simp: climb_def split: list.splits)
  define k where "k = nat (if c_int (u * of_nat (nvars e)) \<ge> int (nvars e) then int (nvars e) - 1
                       else c_int (u * of_nat (nvars e)))"
  from assms False d have
    "climb_int e ind k v (s\<lparr>draws := ds\<rparr>) = (v', s')
     \<or> climb_real e ind k v (s\<lparr>draws := ds\<rparr>) = (v', s')"
    unfolding k_def by (auto simp: climb_def Let_def split: if_splits)
  then show ?thesis
    by (intro exI [of _ k] exI [of _ "s\<lparr>draws := ds\<rparr>"]) simp
qed

lemma grand_best_climb:
  assumes "climb e g ind v s = Some (v', s')"
  shows "grand_best s \<le> grand_best s'"
  using climb_cases [OF assms] grand_best_climb_int grand_best_climb_real
  by (metis order_refl)

lemma grand_best_hill_climb:
  assumes "hill_climb e g ind v s = Some (v', s')"
  shows "grand_best s \<le> grand_best s'"
  using assms grand_best_climb [of e g ind v s v' s']
    grand_best_climb [of e g ind v "s\<lparr>draws := tl (draws s)\<rparr>" v' s']
  by (auto simp: hill_climb_def split: if_splits list.splits)

lemma grand_best_child_step:
  assumes "child_step e g ind s = Some s'"
  shows "grand_best s \<le> grand_best s'"
proof -
  from assms obtain s1 where a: "make_child e ind s = Some s1"
    by (auto simp: child_step_def split: option.splits)
  obtain v s2 where b: "selection e ind s1 = (v, s2)"
    by (cases "selection e ind s1")
  from assms a b obtain v' s3 where c: "hill_climb e g ind v s2 = Some (v', s3)"
    by (auto simp: child_step_def split: option.splits)
  from assms a b c have "grand_best s' = grand_best s3"
    by (auto simp: child_step_def Let_def)
  with grand_best_make_child [OF a] grand_best_selection [OF b] grand_best_hill_climb [OF c]
  show ?thesis by simp
qed

lemma grand_best_end_generation:
  assumes "end_generation e g s = (p, s')"
  shows "grand_best s' = grand_best s"
  using assms by (auto simp: end_generation_def Let_def split: if_splits)

lemma grand_best_step:
  assumes "step e (p, s) = Some (p', s')" "p \<noteq> Initialising 0"
  shows "grand_best s \<le> grand_best s' \<and> p' \<noteq> Initialising 0"
proof (cases p)
  case (Initialising ind)
  with assms have "ind \<noteq> 0" by simp
  with assms Initialising show ?thesis
    using grand_best_init_trial [of e ind s p' s']
    by (auto simp: init_trial_def finished_def Let_def split: if_splits option.splits prod.splits)
next
  case (Evolving g ind)
  with assms show ?thesis
    using grand_best_child_step [of e g ind s s'] grand_best_end_generation [of e g s p' s']
    by (auto simp: end_generation_def finished_def Let_def split: if_splits option.splits)
next
  case (Returned r out)
  with assms show ?thesis by auto
qed

lemma grand_best_iter:
  assumes "iter n e (p, s) = Some (p', s')" "p \<noteq> Initialising 0"
  shows "grand_best s \<le> grand_best s'"
  using assms
proof (induction n arbitrary: p s)
  case 0
  then show ?case by simp
next
  case (Suc n)
  then obtain p1 s1 where st: "step e (p, s) = Some (p1, s1)"
    by (auto split: option.splits)
  with Suc.prems have it: "iter n e (p1, s1) = Some (p', s')" by simp
  from grand_best_step [OF st Suc.prems(2)] Suc.IH [OF it] show ?case by simp
qed


text \<open>
  C5, as stated, fails in the initial loop: as long as the loop is at subscript 0, every
  trial assigns its criterion to \<^verbatim>\<open>grand_best\<close>, and a worthless trial leaves the
  subscript at 0.  Two worthless trials with criteria \<open>-4\<close> and \<open>-6\<close> take
  \<^verbatim>\<open>grand_best\<close> from \<open>-4\<close> down to \<open>-6\<close>.
\<close>

theorem grand_best_reseeded_counterexample:
  "map_option (\<lambda>(p, s). (p, grand_best s)) (iter 1 losing_env (enter 1 (blank 4 1 [1/2, 3/4])))
     = Some (Initialising 0, - 4)
   \<and> map_option (\<lambda>(p, s). (p, grand_best s)) (iter 2 losing_env (enter 1 (blank 4 1 [1/2, 3/4])))
     = Some (Initialising 0, - 6)"
  by code_simp

text \<open>
  C5, amended: from any point of the run other than the initial loop at subscript 0,
  that is, once a first trial has been accepted, \<^verbatim>\<open>grand_best\<close> never decreases, through
  the rest of the initial loop and all generations.
\<close>

theorem grand_best_monotone:
  assumes "iter n e (p, s) = Some (p', s')" "p \<noteq> Initialising 0"
  shows "grand_best s \<le> grand_best s'"
  using assms by (rule grand_best_iter)

theorem grand_best_monotone_witness:
  "iter 3 demo_env (Initialising 1, snd (the (iter 1 demo_env (enter 1 (blank 4 1 [1/2, 3/4, 5/16, 5/8])))))
     = Some (Initialising 4, snd (the (iter 4 demo_env (enter 1 (blank 4 1 [1/2, 3/4, 5/16, 5/8])))))
   \<and> Initialising 1 \<noteq> Initialising 0
   \<and> grand_best (snd (the (iter 1 demo_env (enter 1 (blank 4 1 [1/2, 3/4, 5/16, 5/8]))))) = 4
   \<and> grand_best (snd (the (iter 4 demo_env (enter 1 (blank 4 1 [1/2, 3/4, 5/16, 5/8]))))) = 6"
proof -
  have a: "iter 3 demo_env (Initialising 1, snd (the (iter 1 demo_env (enter 1 (blank 4 1 [1/2, 3/4, 5/16, 5/8])))))
     = Some (Initialising 4, snd (the (iter 4 demo_env (enter 1 (blank 4 1 [1/2, 3/4, 5/16, 5/8])))))"
    by code_simp
  have b: "Initialising 1 \<noteq> Initialising 0" by simp
  have c: "grand_best (snd (the (iter 1 demo_env (enter 1 (blank 4 1 [1/2, 3/4, 5/16, 5/8]))))) = 4"
    by code_simp
  have d: "grand_best (snd (the (iter 4 demo_env (enter 1 (blank 4 1 [1/2, 3/4, 5/16, 5/8]))))) = 6"
    by code_simp
  show ?thesis
    using a b c d grand_best_monotone [OF a b] by simp
qed

subsection \<open>C4: crossover\<close>

text \<open>The variables are visited in rotation: \<open>j\<close>, \<open>j + 1\<close>, \dots, modulo \<open>nvars\<close>.\<close>

lemma rot_step: "((j + 1) mod n + t) mod n = (j + Suc t) mod (n::nat)"
  by (simp add: mod_add_left_eq)

lemma rot_distinct: "0 < t \<Longrightarrow> t < n \<Longrightarrow> j < n \<Longrightarrow> (j + t) mod n \<noteq> (j::nat)"
proof
  assume a: "0 < t" "t < n" "j < n" "(j + t) mod n = j"
  show False
  proof (cases "j + t < n")
    case True
    with a show False by simp
  next
    case False
    then have "(j + t) mod n = (j + t - n) mod n"
      by (simp add: le_mod_geq)
    also have "\<dots> = j + t - n"
      using a by simp
    finally show False using a False by simp
  qed
qed

lemma rot_onto: "d < n \<Longrightarrow> j < n \<Longrightarrow> \<exists>t<n. (j + t) mod n = (d::nat)"
proof (cases "j \<le> d")
  case True
  assume "d < n" "j < n"
  with True show ?thesis by (intro exI [of _ "d - j"]) simp
next
  case False
  assume a: "d < n" "j < n"
  with False have "(j + (d + n - j)) mod n = d" by simp
  with a False show ?thesis by (intro exI [of _ "d + n - j"]) simp
qed

lemma rot_less:
  assumes "t < t'" "t' < n"
  shows "(j + t) mod n \<noteq> (j + t') mod (n::nat)"
proof -
  have "((j + t) mod n + (t' - t)) mod n \<noteq> (j + t) mod n"
    using assms by (intro rot_distinct) auto
  moreover have "((j + t) mod n + (t' - t)) mod n = (j + t') mod n"
  proof -
    have "((j + t) mod n + (t' - t)) mod n = ((j + t) + (t' - t)) mod n"
      by (rule mod_add_left_eq)
    also have "(j + t) + (t' - t) = j + t'" using assms by simp
    finally show ?thesis .
  qed
  ultimately show ?thesis by simp
qed

lemma rot_inj:
  assumes "t < n" "t' < n" "(j + t) mod n = (j + t') mod (n::nat)"
  shows "t = t'"
  using assms rot_less [of t t' n j] rot_less [of t' t n j]
  by (cases "t < t'"; cases "t' < t") auto

lemma crossover_total:
  "n \<le> length ds \<Longrightarrow> \<exists>r. crossover e p1 p2 d1 d2 n j used dest ds = Some r"
proof (induction n arbitrary: j used dest ds)
  case 0
  then show ?case by simp
next
  case (Suc n)
  then obtain u ds' where ds: "ds = u # ds'" by (cases ds) auto
  with Suc.prems have l: "n \<le> length ds'" "n \<le> length ds" by simp_all
  show ?case
    using Suc.IH [OF l(1)] Suc.IH [OF l(2)] by (auto simp: ds)
qed



lemma crossover_Suc:
  assumes "crossover e p1 p2 d1 d2 (Suc n) j used dest ds = Some (child, ds')"
  shows "\<exists>x used' ds1. crossover e p1 p2 d1 d2 n ((j + 1) mod nvars e) used' (dest[j := x]) ds1
                          = Some (child, ds')
           \<and> (x = mutant e p2 d1 d2 j \<and> used' \<or> x = p1 ! j \<and> used' = used \<and> (0 < n \<or> used))
           \<and> (pcross e = 0 \<and> (\<forall>u\<in>set ds. 0 \<le> u) \<longrightarrow>
                 (\<forall>u\<in>set ds1. 0 \<le> u)
                 \<and> (if n = 0 \<and> \<not> used then x = mutant e p2 d1 d2 j
                     else x = p1 ! j \<and> used' = used))"
proof (cases "n = 0 \<and> \<not> used")
  case True
  with assms show ?thesis
    by (intro exI [of _ "mutant e p2 d1 d2 j"] exI [of _ True] exI [of _ ds]) auto
next
  case False
  with assms obtain u dt where ds: "ds = u # dt"
    by (cases ds) auto
  show ?thesis
  proof (cases "u < pcross e")
    case True
    with assms False ds show ?thesis
      by (intro exI [of _ "mutant e p2 d1 d2 j"] exI [of _ True] exI [of _ dt]) auto
  next
    case nc: False
    with assms False ds show ?thesis
      by (intro exI [of _ "p1 ! j"] exI [of _ used] exI [of _ dt]) auto
  qed
qed

lemma crossover_untouched:
  assumes "crossover e p1 p2 d1 d2 n j used dest ds = Some (child, ds')"
    and "n \<le> t" "t < nvars e" "j < nvars e"
  shows "child ! ((j + t) mod nvars e) = dest ! ((j + t) mod nvars e)"
  using assms
proof (induction n arbitrary: j used dest ds t)
  case 0
  then show ?case by simp
next
  case (Suc n)
  from crossover_Suc [OF Suc.prems(1)] obtain x used' ds1 where
    r: "crossover e p1 p2 d1 d2 n ((j + 1) mod nvars e) used' (dest[j := x]) ds1 = Some (child, ds')"
    by blast
  from Suc.prems obtain t' where t': "t = Suc t'" by (cases t) auto
  have pos: "(j + 1) mod nvars e < nvars e" using Suc.prems by simp
  have "child ! (((j + 1) mod nvars e + t') mod nvars e)
          = (dest[j := x]) ! (((j + 1) mod nvars e + t') mod nvars e)"
    using Suc.prems t' by (intro Suc.IH [OF r _ _ pos]) auto
  then have "child ! ((j + t) mod nvars e) = (dest[j := x]) ! ((j + t) mod nvars e)"
    by (simp only: rot_step t')
  moreover have "(j + t) mod nvars e \<noteq> j"
    using Suc.prems t' by (intro rot_distinct) auto
  ultimately show ?case by simp
qed

lemma crossover_written:
  assumes "crossover e p1 p2 d1 d2 n ((j + 1) mod nvars e) used dest ds = Some (child, ds')"
    and "Suc n \<le> nvars e" "j < nvars e"
  shows "child ! j = dest ! j"
proof -
  have pos: "(j + 1) mod nvars e < nvars e" using assms by simp
  have "child ! (((j + 1) mod nvars e + (nvars e - 1)) mod nvars e)
          = dest ! (((j + 1) mod nvars e + (nvars e - 1)) mod nvars e)"
    using assms by (intro crossover_untouched [OF assms(1) _ _ pos]) auto
  moreover have "((j + 1) mod nvars e + (nvars e - 1)) mod nvars e = j"
  proof -
    have "((j + 1) mod nvars e + (nvars e - 1)) mod nvars e
            = (j + Suc (nvars e - 1)) mod nvars e"
      by (rule rot_step)
    also have "Suc (nvars e - 1) = nvars e" using assms by simp
    finally show ?thesis using assms by simp
  qed
  ultimately show ?thesis by simp
qed

lemma crossover_mutates:
  assumes "crossover e p1 p2 d1 d2 n j False dest ds = Some (child, ds')"
    and "0 < n" "n \<le> nvars e" "j < nvars e" "length dest = nvars e"
  shows "\<exists>t<n. child ! ((j + t) mod nvars e) = mutant e p2 d1 d2 ((j + t) mod nvars e)"
  using assms
proof (induction n arbitrary: j dest ds)
  case 0
  then show ?case by simp
next
  case (Suc n)
  from crossover_Suc [OF Suc.prems(1)] obtain x used' ds1 where
    r: "crossover e p1 p2 d1 d2 n ((j + 1) mod nvars e) used' (dest[j := x]) ds1 = Some (child, ds')"
    and x: "x = mutant e p2 d1 d2 j \<and> used' \<or> x = p1 ! j \<and> used' = False \<and> 0 < n"
    by blast
  have pos: "(j + 1) mod nvars e < nvars e" using Suc.prems by simp
  have here: "child ! j = x"
    using crossover_written [OF r] Suc.prems by simp
  from x show ?case
  proof
    assume "x = mutant e p2 d1 d2 j \<and> used'"
    with here Suc.prems show ?thesis
      by (intro exI [of _ 0]) simp
  next
    assume a: "x = p1 ! j \<and> used' = False \<and> 0 < n"
    with r have r': "crossover e p1 p2 d1 d2 n ((j + 1) mod nvars e) False (dest[j := x]) ds1
                       = Some (child, ds')" by simp
    from Suc.IH [OF r' _ _ pos] a Suc.prems obtain t where
      t: "t < n" "child ! (((j + 1) mod nvars e + t) mod nvars e)
                    = mutant e p2 d1 d2 (((j + 1) mod nvars e + t) mod nvars e)"
      by auto
    then show ?thesis
      unfolding rot_step by (intro exI [of _ "Suc t"]) simp
  qed
qed

lemma crossover_pcross0:
  assumes "crossover e p1 p2 d1 d2 n j False dest ds = Some (child, ds')"
    and "pcross e = 0" "\<forall>u\<in>set ds. 0 \<le> u"
    and "n \<le> nvars e" "j < nvars e" "length dest = nvars e" "t < n"
  shows "child ! ((j + t) mod nvars e) =
           (if t = n - 1 then mutant e p2 d1 d2 ((j + t) mod nvars e)
            else p1 ! ((j + t) mod nvars e))"
  using assms
proof (induction n arbitrary: j dest ds t)
  case 0
  then show ?case by simp
next
  case (Suc n)
  from crossover_Suc [OF Suc.prems(1)] Suc.prems(2,3) obtain x used' ds1 where
    r: "crossover e p1 p2 d1 d2 n ((j + 1) mod nvars e) used' (dest[j := x]) ds1 = Some (child, ds')"
    and nn: "\<forall>u\<in>set ds1. 0 \<le> u"
    and x: "if n = 0 then x = mutant e p2 d1 d2 j else x = p1 ! j \<and> used' = False"
    by auto
  have pos: "(j + 1) mod nvars e < nvars e" using Suc.prems by simp
  have here: "child ! j = x"
    using crossover_written [OF r] Suc.prems by simp
  show ?case
  proof (cases t)
    case 0
    with here x Suc.prems show ?thesis by (auto split: if_splits)
  next
    case (Suc t')
    with Suc.prems have n: "0 < n" "t' < n" by auto
    with x r have r': "crossover e p1 p2 d1 d2 n ((j + 1) mod nvars e) False (dest[j := x]) ds1
                       = Some (child, ds')" by simp
    have "child ! (((j + 1) mod nvars e + t') mod nvars e) =
           (if t' = n - 1 then mutant e p2 d1 d2 (((j + 1) mod nvars e + t') mod nvars e)
            else p1 ! (((j + 1) mod nvars e + t') mod nvars e))"
      using Suc.prems n nn by (intro Suc.IH [OF r' _ _ _ pos]) auto
    then have "child ! ((j + Suc t') mod nvars e) =
           (if t' = n - 1 then mutant e p2 d1 d2 ((j + Suc t') mod nvars e)
            else p1 ! ((j + Suc t') mod nvars e))"
      unfolding rot_step .
    moreover have "t' = n - 1 \<longleftrightarrow> Suc t' = Suc n - 1"
      using n by auto
    ultimately show ?thesis
      unfolding Suc by (simp only:)
  qed
qed

text \<open>
  C4: the crossover loop of lines 274--282, started at any variable \<open>j\<close> with enough
  numbers to draw, returns a child in which at least one variable holds the mutated value
  \<open>parent2[d] + mutate_dev * (diff1[d] - diff2[d])\<close>.  When \<^verbatim>\<open>pcross\<close> is 0 and the
  numbers drawn are not negative, the variable visited last, \<open>(j + nvars - 1) mod nvars\<close>,
  holds the mutated value and every other variable is that of \<^verbatim>\<open>parent1\<close>.
\<close>

theorem crossover_uses_mutation:
  assumes "j < nvars e" "length dest = nvars e" "nvars e \<le> length ds"
  shows "\<exists>child ds'. crossover e p1 p2 d1 d2 (nvars e) j False dest ds = Some (child, ds')
     \<and> (\<exists>d<nvars e. child ! d = p2 ! d + mutate_dev e * (d1 ! d - d2 ! d))
     \<and> (pcross e = 0 \<and> (\<forall>u\<in>set ds. 0 \<le> u) \<longrightarrow>
          (\<forall>d<nvars e. child ! d =
             (if d = (j + nvars e - 1) mod nvars e
              then p2 ! d + mutate_dev e * (d1 ! d - d2 ! d) else p1 ! d)))"
proof -
  from crossover_total [OF assms(3)] obtain child ds' where
    c: "crossover e p1 p2 d1 d2 (nvars e) j False dest ds = Some (child, ds')"
    by fastforce
  have pos: "0 < nvars e" using assms by simp
  from crossover_mutates [OF c pos _ assms(1,2)] obtain t where
    "t < nvars e" "child ! ((j + t) mod nvars e) = mutant e p2 d1 d2 ((j + t) mod nvars e)"
    by auto
  then have one: "\<exists>d<nvars e. child ! d = p2 ! d + mutate_dev e * (d1 ! d - d2 ! d)"
    using pos by (intro exI [of _ "(j + t) mod nvars e"]) (simp add: mutant_def)
  have two: "child ! d = (if d = (j + nvars e - 1) mod nvars e
              then p2 ! d + mutate_dev e * (d1 ! d - d2 ! d) else p1 ! d)"
    if z: "pcross e = 0" "\<forall>u\<in>set ds. 0 \<le> u" and d: "d < nvars e" for d
  proof -
    from rot_onto [OF d assms(1)] obtain t where t: "t < nvars e" "(j + t) mod nvars e = d"
      by blast
    have last: "t = nvars e - 1 \<longleftrightarrow> d = (j + nvars e - 1) mod nvars e"
    proof
      assume "t = nvars e - 1"
      with t pos show "d = (j + nvars e - 1) mod nvars e" by auto
    next
      assume "d = (j + nvars e - 1) mod nvars e"
      with t pos have "(j + t) mod nvars e = (j + (nvars e - 1)) mod nvars e" by simp
      then show "t = nvars e - 1"
        using t pos by (intro rot_inj [of t "nvars e" "nvars e - 1" j]) auto
    qed
    from crossover_pcross0 [OF c z _ assms(1,2) t(1)] t last show ?thesis
      by (simp add: mutant_def)
  qed
  from c one two show ?thesis by blast
qed

theorem crossover_uses_mutation_witness:
  "3 < nvars five_env \<and> length [0, 0, 0, 0, 0 :: real] = nvars five_env
   \<and> nvars five_env \<le> length [1/2, 1/2, 1/2, 1/2, 1/2 :: real]
   \<and> pcross five_env = 0
   \<and> crossover five_env [1, 2, 3, 4, 5] [10, 20, 30, 40, 50] [4, 4, 4, 4, 4] [2, 2, 2, 2, 2]
        (nvars five_env) 3 False [0, 0, 0, 0, 0] [1/2, 1/2, 1/2, 1/2, 1/2]
       = Some ([1, 2, 31, 4, 5], [1/2])"
proof -
  have a: "3 < nvars five_env" by code_simp
  have b: "length [0, 0, 0, 0, 0 :: real] = nvars five_env" by code_simp
  have c: "nvars five_env \<le> length [1/2, 1/2, 1/2, 1/2, 1/2 :: real]" by code_simp
  have d: "pcross five_env = 0" by code_simp
  have r: "crossover five_env [1, 2, 3, 4, 5] [10, 20, 30, 40, 50] [4, 4, 4, 4, 4] [2, 2, 2, 2, 2]
        (nvars five_env) 3 False [0, 0, 0, 0, 0] [1/2, 1/2, 1/2, 1/2, 1/2]
       = Some ([1, 2, 31, 4, 5], [1/2])" by code_simp
  show ?thesis
    using a b c d r
      crossover_uses_mutation [OF a b c, of "[1, 2, 3, 4, 5]" "[10, 20, 30, 40, 50]"
        "[4, 4, 4, 4, 4]" "[2, 2, 2, 2, 2]"]
    by simp
qed

subsection \<open>The two generations\<close>

lemma old_gen_set_dest [simp]: "old_gen (set_dest ind c s) = old_gen s"
  by (simp add: old_gen_def set_dest_def)

lemma new_gen_set_dest [simp]: "new_gen (set_dest ind c s) = (new_gen s)[ind := c]"
  by (simp add: new_gen_def set_dest_def)

lemma old_gen_update_best [simp]: "old_gen (update_best ind v s) = old_gen s"
  by (simp add: old_gen_def update_best_def)

lemma new_gen_update_best [simp]: "new_gen (update_best ind v s) = new_gen s"
  by (simp add: new_gen_def update_best_def)

lemma gen_draws [simp]:
  "old_gen (s\<lparr>draws := ds\<rparr>) = old_gen s" "new_gen (s\<lparr>draws := ds\<rparr>) = new_gen s"
  by (simp_all add: old_gen_def new_gen_def)

lemma mintrades_set_dest [simp]: "local_mintrades (set_dest ind c s) = local_mintrades s"
  by (simp add: set_dest_def)

lemma make_child_frame:
  assumes "make_child e ind s = Some s1"
  shows "old_gen s1 = old_gen s" "local_mintrades s1 = local_mintrades s"
    "length (new_gen s1) = length (new_gen s)"
  using assms
  by (auto simp: make_child_def Let_def split: option.splits prod.splits)

lemma grown_reached:
  "iter 5 demo_env (enter 1 (blank 4 1 [1/2, 3/4, 5/16, 5/8, 1/4, 3/4, 1/2, 0]))
     = Some (Evolving 1 0, grown parents (replicate 4 (one 0 0)) (one 5 6) 1 [1/4, 3/4, 1/2, 0])"
  by code_simp

subsection \<open>C3: selection\<close>

text \<open>
  C3: when the child of subscript \<open>ind\<close> has been built in its place in the new
  generation and \<^verbatim>\<open>parent1\<close> is \<open>old_gen[ind]\<close>, the selection of lines 300--316 leaves
  in that place the child with its own criterion stored, exactly when that criterion is
  greater than the one stored with \<^verbatim>\<open>parent1\<close>, and otherwise a copy of \<^verbatim>\<open>parent1\<close>,
  variables and criterion; either way the criterion in place is at least that of
  \<open>old_gen[ind]\<close>, and the old generation is as it was.
\<close>

theorem selection_keeps_better:
  assumes "make_child e ind s = Some s1" "selection e ind s1 = (v, s2)"
    and "ind < length (new_gen s)"
  shows "new_gen s2 ! ind =
           (if criter e (vars (new_gen s1 ! ind)) (local_mintrades s) > crit (old_gen s ! ind)
            then (new_gen s1 ! ind)\<lparr>crit := criter e (vars (new_gen s1 ! ind)) (local_mintrades s)\<rparr>
            else old_gen s ! ind)
         \<and> crit (old_gen s ! ind) \<le> crit (new_gen s2 ! ind)
         \<and> v = crit (new_gen s2 ! ind)
         \<and> old_gen s2 = old_gen s"
  using assms(2,3) make_child_frame [OF assms(1)]
  by (auto simp: selection_def Let_def split: if_splits)

theorem selection_keeps_better_witness:
  "make_child demo_env 0 (grown parents (replicate 4 (one 0 0)) (one 5 6) 1 [1/4, 3/4, 1/2, 0])
     = Some (grown parents [one 6 0, one 0 0, one 0 0, one 0 0] (one 5 6) 1 [])
   \<and> selection demo_env 0 (grown parents [one 6 0, one 0 0, one 0 0, one 0 0] (one 5 6) 1 [])
        = (7, (grown parents [one 6 7, one 0 0, one 0 0, one 0 0] (one 6 7) 0 [])\<lparr>improved := True\<rparr>)
   \<and> 0 < length (new_gen (grown parents (replicate 4 (one 0 0)) (one 5 6) 1 [1/4, 3/4, 1/2, 0]))
   \<and> old_gen (grown parents (replicate 4 (one 0 0)) (one 5 6) 1 [1/4, 3/4, 1/2, 0]) ! 0 = one 3 4
   \<and> new_gen ((grown parents [one 6 7, one 0 0, one 0 0, one 0 0] (one 6 7) 0 [])\<lparr>improved := True\<rparr>) ! 0
        = one 6 7"
proof -
  have a: "make_child demo_env 0 (grown parents (replicate 4 (one 0 0)) (one 5 6) 1 [1/4, 3/4, 1/2, 0])
     = Some (grown parents [one 6 0, one 0 0, one 0 0, one 0 0] (one 5 6) 1 [])"
    by code_simp
  have b: "selection demo_env 0 (grown parents [one 6 0, one 0 0, one 0 0, one 0 0] (one 5 6) 1 [])
        = (7, (grown parents [one 6 7, one 0 0, one 0 0, one 0 0] (one 6 7) 0 [])\<lparr>improved := True\<rparr>)"
    by code_simp
  have c: "0 < length (new_gen (grown parents (replicate 4 (one 0 0)) (one 5 6) 1 [1/4, 3/4, 1/2, 0]))"
    by code_simp
  have d: "old_gen (grown parents (replicate 4 (one 0 0)) (one 5 6) 1 [1/4, 3/4, 1/2, 0]) ! 0 = one 3 4"
    by code_simp
  have f: "new_gen ((grown parents [one 6 7, one 0 0, one 0 0, one 0 0] (one 6 7) 0 [])\<lparr>improved := True\<rparr>) ! 0
        = one 6 7"
    by code_simp
  show ?thesis
    using a b c d f selection_keeps_better [OF a b c] by simp
qed

subsection \<open>C8: a hill-climbing step that does not improve\<close>























subsection \<open>C1: the criterion stored with a case\<close>

text \<open>
  C1 asks that the criterion stored with a case be that of its variables after every
  step, the hill-climbing step on an integer variable included.  The source assigns the
  stored criterion in the real branch (line 430) and nowhere in the integer branch (lines
  350--397).  Run \<open>demo_env\<close> on the draws below: the initial loop gives the population
  3, 5, 2, 4 with criteria 4, 6, 3, 5; the first child, 3, does not beat its parent, so
  the parent is copied with its criterion 4; the hill-climbing step then walks the
  variable up to 6, where the criterion is 7.  The case is left with variable 6 and
  stored criterion 4, and \<^verbatim>\<open>grand_best\<close> is still 6.
\<close>

theorem integer_climb_leaves_stale_criterion:
  "map_option
     (\<lambda>(p, s). (p, new_gen s ! 0, criter demo_env (vars (new_gen s ! 0)) (local_mintrades s),
                grand_best s))
     (iter 6 demo_env (enter 1 (blank 4 1 [1/2, 3/4, 5/16, 5/8, 1/4, 1/2, 3/4, 0, 0, 0])))
   = Some (Evolving 1 1, \<lparr>vars = [6], crit = 4\<rparr>, 7, 6)"
  by code_simp

subsection \<open>C6: the members of the populations stay within their bounds\<close>




lemma count_failure_frame [simp]:
  "pop1 (count_failure s) = pop1 s" "pop2 (count_failure s) = pop2 s"
  "draws (count_failure s) = draws s"
  by (simp_all add: count_failure_def Let_def)

lemma overinit_replace_frame [simp]:
  "pop2 (overinit_replace e c v s) = pop2 s" "draws (overinit_replace e c v s) = draws s"
  "length (pop1 (overinit_replace e c v s)) = length (pop1 s)"
  by (auto simp: overinit_replace_def Let_def split: prod.splits)










lemma round_away_whole: "round_away x \<in> \<int>"
  by (simp add: round_away_def sgn_if)









lemma draws_set_dest [simp]: "draws (set_dest ind c s) = draws s"
  by (simp add: set_dest_def)

lemma update_best_frame [simp]: "draws (update_best ind v s) = draws s"
  by (simp add: update_best_def)
















subsection \<open>C9: the reduction of the minimum trade count\<close>

lemma mintrades_update_best [simp]: "local_mintrades (update_best ind v s) = local_mintrades s"
  by (simp add: update_best_def)

lemma mintrades_overinit_replace [simp]:
  "local_mintrades (overinit_replace e c v s) = local_mintrades s"
  by (simp add: overinit_replace_def Let_def split: prod.splits)

lemma mintrades_init_trial:
  assumes "init_trial e ind s = Some (pc', s')" "local_mintrades s' \<noteq> local_mintrades s"
  shows "pc' = Initialising ind \<and> 500 \<le> failures s + 1"
  using assms
  by (auto simp: init_trial_def Let_def finished_def count_failure_def
      split: option.splits if_splits)

lemma mintrades_selection:
  "selection e ind s = (v, s') \<Longrightarrow> local_mintrades s' = local_mintrades s"
  by (auto simp: selection_def Let_def split: if_splits)

lemma mintrades_climb_int:
  "climb_int e ind k v s = (v', s') \<Longrightarrow> local_mintrades s' = local_mintrades s"
  by (auto simp: climb_int_def Let_def split: prod.splits)

lemma mintrades_climb_real:
  "climb_real e ind k v s = (v', s') \<Longrightarrow> local_mintrades s' = local_mintrades s"
  by (auto simp: climb_real_def Let_def split: prod.splits if_splits)

lemma mintrades_climb:
  assumes "climb e g ind v s = Some (v', s')"
  shows "local_mintrades s' = local_mintrades s"
proof (cases "ind = ibest s")
  case True
  with assms show ?thesis
    using mintrades_climb_int [of e ind "g mod nvars e" v "s\<lparr>n_tweaked := n_tweaked s + 1\<rparr>" v' s']
      mintrades_climb_real [of e ind "g mod nvars e" v "s\<lparr>n_tweaked := n_tweaked s + 1\<rparr>" v' s']
    by (auto simp: climb_def Let_def split: if_splits)
next
  case False
  with assms obtain u ds where d: "draws s = u # ds"
    by (auto simp: climb_def split: list.splits)
  define k where "k = nat (if c_int (u * of_nat (nvars e)) \<ge> int (nvars e) then int (nvars e) - 1
                       else c_int (u * of_nat (nvars e)))"
  from assms False d have
    "climb_int e ind k v (s\<lparr>draws := ds\<rparr>) = (v', s')
     \<or> climb_real e ind k v (s\<lparr>draws := ds\<rparr>) = (v', s')"
    unfolding k_def by (auto simp: climb_def Let_def split: if_splits)
  then show ?thesis
    using mintrades_climb_int [of e ind k v "s\<lparr>draws := ds\<rparr>" v' s']
      mintrades_climb_real [of e ind k v "s\<lparr>draws := ds\<rparr>" v' s']
    by auto
qed

lemma mintrades_hill_climb:
  assumes "hill_climb e g ind v s = Some (v', s')"
  shows "local_mintrades s' = local_mintrades s"
  using assms mintrades_climb [of e g ind v s v' s']
    mintrades_climb [of e g ind v "s\<lparr>draws := tl (draws s)\<rparr>" v' s']
  by (auto simp: hill_climb_def split: if_splits list.splits)

lemma mintrades_child_step:
  assumes "child_step e g ind s = Some s'"
  shows "local_mintrades s' = local_mintrades s"
proof -
  from assms obtain s1 where a: "make_child e ind s = Some s1"
    by (auto simp: child_step_def split: option.splits)
  obtain v s2 where b: "selection e ind s1 = (v, s2)"
    by (cases "selection e ind s1")
  from assms a b obtain v' s3 where c: "hill_climb e g ind v s2 = Some (v', s3)"
    by (auto simp: child_step_def split: option.splits)
  from assms a b c have "local_mintrades s' = local_mintrades s3"
    by (auto simp: child_step_def Let_def)
  with make_child_frame(2) [OF a] mintrades_selection [OF b] mintrades_hill_climb [OF c]
  show ?thesis by simp
qed

lemma mintrades_step:
  assumes "step e (pc, s) = Some (pc', s')" "local_mintrades s' \<noteq> local_mintrades s"
  shows "\<exists>ind. pc = Initialising ind \<and> pc' = Initialising ind \<and> 500 \<le> failures s + 1"
proof (cases pc)
  case (Initialising ind)
  with assms mintrades_init_trial [of e ind s pc' s'] show ?thesis
    by (auto simp: start_evolution_def start_generation_def Let_def
        split: if_splits prod.splits)
next
  case (Evolving g ind)
  with assms mintrades_child_step [of e g ind s s'] show ?thesis
    by (auto simp: end_generation_def start_generation_def Let_def
        split: if_splits option.splits)
next
  case (Returned r out)
  with assms show ?thesis by auto
qed

text \<open>
  C9, as stated, replaces the threshold \<open>t\<close> by \<open>max(1, round(t * 0.9))\<close>.  The source
  computes \<^verbatim>\<open>local_mintrades * 9 / 10\<close> on \<^verbatim>\<open>int\<close>, which truncates: from 4 it goes
  to 3, where rounding 3.6 gives 4.
\<close>

theorem mintrades_not_rounded_counterexample:
  "failures worthless_499 + 1 = 500 \<and> local_mintrades worthless_499 = 4
   \<and> local_mintrades (snd (the (init_trial demo_env 0 worthless_499))) = 3
   \<and> spec_reduced 4 = 4"
  by code_simp

text \<open>
  C9, amended: in the initial loop, a worthless trial that brings the count of failures
  in a row to 500 replaces the threshold \<open>t\<close> by \<open>max(1, t * 9 div 10)\<close>, the integer
  quotient, provided \<open>t * 9\<close> is in the range of \<^verbatim>\<open>int\<close>, and sets the count back to 0.
  Every evaluation takes the threshold held in the state, and no pass of the run changes
  that threshold other than such a reduction.
\<close>

theorem mintrades_reduced_by_truncation:
  assumes "init_trial e ind s = Some (Initialising ind, s')"
    and "failures s + 1 \<ge> 500"
    and "- (2^31) \<le> local_mintrades s * 9" and "local_mintrades s * 9 < 2^31"
  shows "local_mintrades s' = max 1 (local_mintrades s * 9 div 10) \<and> failures s' = 0
         \<and> (\<forall>pc1 s1 pc2 s2.
               step e (pc1, s1) = Some (pc2, s2) \<and> local_mintrades s2 \<noteq> local_mintrades s1 \<longrightarrow>
               (\<exists>i. pc1 = Initialising i \<and> pc2 = Initialising i \<and> 500 \<le> failures s1 + 1))"
proof -
  obtain v ds where nt: "new_trial e ind s = Some (v, ds)"
    using assms(1) by (auto simp: init_trial_def split: option.splits)
  define val where "val = criter e v (local_mintrades s)"
  define s1 where "s1 = (if ind < popsize e then s\<lparr>draws := ds, pop1 := (pop1 s)[ind := \<lparr>vars = v, crit = val\<rparr>]\<rparr>
                  else s\<lparr>draws := ds, pop2 := (pop2 s)[0 := \<lparr>vars = v, crit = val\<rparr>]\<rparr>)"
  define s2 where "s2 = (if ind = 0 then s1\<lparr>n_evals := n_evals s + 1, grand_best := val, worstf := val, avgf := val, best := pop1 s1 ! 0\<rparr>
                  else s1\<lparr>n_evals := n_evals s + 1\<rparr>)"
  have s2: "failures s2 = failures s" "local_mintrades s2 = local_mintrades s"
    by (auto simp: s2_def s1_def)
  have "s' = count_failure s2"
  proof (cases "val \<le> 0")
    case True
    show ?thesis
    proof (cases "n_evals s + 1 > max_evals e")
      case True
      with \<open>val \<le> 0\<close> init_trial_cases(1) [OF nt] assms(1) show ?thesis
        by (simp add: val_def finished_def)
    next
      case False
      with \<open>val \<le> 0\<close> init_trial_cases(2) [OF nt] assms(1) show ?thesis
        by (simp add: val_def s1_def s2_def)
    qed
  next
    case False
    with init_trial_cases(3) [OF nt] assms(1) show ?thesis
      by (auto simp: val_def)
  qed
  then have "local_mintrades s' = max 1 (local_mintrades s * 9 div 10) \<and> failures s' = 0"
    using count_failure_reduces [of s2] assms(2-4) s2 by simp
  then show ?thesis
    using mintrades_step by blast
qed

theorem mintrades_reduced_by_truncation_witness:
  "init_trial demo_env 0 worthless_499
     = Some (Initialising 0, snd (the (init_trial demo_env 0 worthless_499)))
   \<and> failures worthless_499 + 1 \<ge> 500
   \<and> local_mintrades worthless_499 = 4
   \<and> local_mintrades (snd (the (init_trial demo_env 0 worthless_499))) = 3
   \<and> failures (snd (the (init_trial demo_env 0 worthless_499))) = 0"
proof -
  have a: "init_trial demo_env 0 worthless_499
     = Some (Initialising 0, snd (the (init_trial demo_env 0 worthless_499)))"
    by code_simp
  have b: "failures worthless_499 + 1 \<ge> 500" by code_simp
  have c: "local_mintrades worthless_499 = 4" by code_simp
  show ?thesis
    using a b c mintrades_reduced_by_truncation [OF a b] by simp
qed

end
